theory Spec2Isabelle
  imports Main "HOL-Library.Multiset"
begin

section \<open>Characters and strings of the Python program\<close>

text \<open>
  A Python \<open>str\<close> is a sequence of code points. The model reads a \<^typ>\<open>char\<close> as the
  code point of the same number, so a \<^typ>\<open>string\<close> is a Python string over
  U+0000 .. U+00FF and \<^const>\<open>length\<close> is Python's \<open>len\<close>. The character classes
  below are the classes of Python's \<open>re\<close> module for \<open>str\<close> patterns (Unicode aware),
  cut down to that range.
\<close>

definition code :: "char \<Rightarrow> nat" where
  "code c = of_char c"

definition NL :: char where
  "NL = CHR 0x0A"

text \<open>\<open>\s\<close>, and what \<open>str.strip()\<close> removes: \<open>str.isspace\<close>.\<close>

definition is_space :: "char \<Rightarrow> bool" where
  "is_space c = (let n = code c in
     (9 \<le> n \<and> n \<le> 13) \<or> (28 \<le> n \<and> n \<le> 32) \<or> n = 133 \<or> n = 160)"

text \<open>\<open>\d\<close>: the decimal digits.\<close>

definition is_digit :: "char \<Rightarrow> bool" where
  "is_digit c = (let n = code c in 48 \<le> n \<and> n \<le> 57)"

text \<open>\<open>[A-Za-z]\<close>, which is also \<open>[A-Z]\<close> under the flag \<open>(?i)\<close>.\<close>

definition is_ascii_letter :: "char \<Rightarrow> bool" where
  "is_ascii_letter c = (let n = code c in (65 \<le> n \<and> n \<le> 90) \<or> (97 \<le> n \<and> n \<le> 122))"

text \<open>Alphanumeric code points: letters, decimal digits and the other numeric characters.\<close>

definition is_alnum :: "char \<Rightarrow> bool" where
  "is_alnum c = (let n = code c in
     (48 \<le> n \<and> n \<le> 57) \<or> (65 \<le> n \<and> n \<le> 90) \<or> (97 \<le> n \<and> n \<le> 122) \<or>
     n = 170 \<or> n = 178 \<or> n = 179 \<or> n = 181 \<or> n = 185 \<or> n = 186 \<or>
     (188 \<le> n \<and> n \<le> 190) \<or> (192 \<le> n \<and> n \<le> 214) \<or> (216 \<le> n \<and> n \<le> 246) \<or>
     (248 \<le> n \<and> n \<le> 255))"

text \<open>\<open>\w\<close>: the alphanumeric characters and the underscore.\<close>

definition is_word :: "char \<Rightarrow> bool" where
  "is_word c = (is_alnum c \<or> c = CHR ''_'')"

text \<open>\<open>str.lower()\<close> on one character.\<close>

definition py_lower :: "char \<Rightarrow> char" where
  "py_lower c = (let n = code c in
     if (65 \<le> n \<and> n \<le> 90) \<or> (192 \<le> n \<and> n \<le> 222 \<and> n \<noteq> 215)
     then char_of (n + 32) else c)"

text \<open>A literal letter of a pattern compiled with \<open>(?i)\<close>.\<close>

definition ci :: "char \<Rightarrow> char \<Rightarrow> bool" where
  "ci p c = (py_lower c = py_lower p)"

text \<open>\<open>str.strip()\<close>.\<close>

definition strip :: "string \<Rightarrow> string" where
  "strip s = rev (dropWhile is_space (rev (dropWhile is_space s)))"

text \<open>\<open>str.split('\n')\<close>: one field more than there are newlines.\<close>

fun split_nl :: "string \<Rightarrow> string list" where
  "split_nl [] = [[]]"
| "split_nl (c # cs) =
     (if c = NL then [] # split_nl cs
      else (case split_nl cs of [] \<Rightarrow> [[c]] | l # ls \<Rightarrow> (c # l) # ls))"

text \<open>\<open>re.sub(r'\s+', rep, s)\<close>: every maximal run of whitespace becomes \<open>rep\<close>.\<close>

function re_sub_ws :: "string \<Rightarrow> string \<Rightarrow> string" where
  "re_sub_ws rep [] = []"
| "re_sub_ws rep (c # cs) =
     (if is_space c then rep @ re_sub_ws rep (dropWhile is_space cs)
      else c # re_sub_ws rep cs)"
  by pat_completeness auto
termination
  by (relation "measure (\<lambda>(rep, s). length s)") (auto simp: length_dropWhile_le less_Suc_eq_le)

text \<open>\<open>p in s\<close> on strings: \<open>p\<close> is a contiguous part of \<open>s\<close>.\<close>

fun starts_with :: "string \<Rightarrow> string \<Rightarrow> bool" where
  "starts_with [] s = True"
| "starts_with (p # ps) [] = False"
| "starts_with (p # ps) (c # cs) = (p = c \<and> starts_with ps cs)"

fun contains :: "string \<Rightarrow> string \<Rightarrow> bool" where
  "contains p [] = (p = [])"
| "contains p (c # cs) = (starts_with p (c # cs) \<or> contains p cs)"

section \<open>The regular expressions of the program\<close>

text \<open>
  The patterns of \<open>detect_chapters\<close> are sequences of: the anchors \<open>^\<close> and \<open>$\<close>, one
  character of a class, a class under \<open>?\<close>, \<open>*\<close> or \<open>+\<close> (all greedy), an alternation
  of literals, and the parentheses of group 1. The matcher is a backtracking one, as
  Python's: a greedy repetition first takes the longest run and gives characters back
  one at a time while the rest of the pattern fails.
\<close>

datatype item =
    Bol
  | Eol
  | One "char \<Rightarrow> bool"
  | Opt "char \<Rightarrow> bool"
  | Star "char \<Rightarrow> bool"
  | Plus "char \<Rightarrow> bool"
  | Alt "string list"
  | GOpen
  | GClose

text \<open>The first success among \<open>f (lo + d)\<close>, \<open>f (lo + d - 1)\<close>, ..., \<open>f lo\<close>.\<close>

primrec try_down :: "(nat \<Rightarrow> 'a option) \<Rightarrow> nat \<Rightarrow> nat \<Rightarrow> 'a option" where
  "try_down f lo 0 = f lo"
| "try_down f lo (Suc d) =
     (case f (lo + Suc d) of Some r \<Rightarrow> Some r | None \<Rightarrow> try_down f lo d)"

primrec first_some :: "'a option list \<Rightarrow> 'a option" where
  "first_some [] = None"
| "first_some (x # xs) = (case x of Some r \<Rightarrow> Some r | None \<Rightarrow> first_some xs)"

definition run :: "(char \<Rightarrow> bool) \<Rightarrow> string \<Rightarrow> nat" where
  "run c s = length (takeWhile c s)"

text \<open>
  \<open>rmatch items i rest g\<close>: match \<open>items\<close> against \<open>rest\<close>, the input from position
  \<open>i\<close> on; \<open>g\<close> is the span of group 1 so far. The result is the span of group 1.
\<close>

primrec rmatch :: "item list \<Rightarrow> nat \<Rightarrow> string \<Rightarrow> nat \<times> nat \<Rightarrow> (nat \<times> nat) option" where
  "rmatch [] i s g = Some g"
| "rmatch (x # r) i s g =
     (case x of
        Bol \<Rightarrow> if i = 0 then rmatch r i s g else None
      | Eol \<Rightarrow> if s = [] \<or> s = [NL] then rmatch r i s g else None
      | One c \<Rightarrow>
          (case s of [] \<Rightarrow> None
           | a # s' \<Rightarrow> if c a then rmatch r (Suc i) s' g else None)
      | Opt c \<Rightarrow>
          (case s of [] \<Rightarrow> rmatch r i s g
           | a # s' \<Rightarrow>
               if c a then
                 (case rmatch r (Suc i) s' g of Some m \<Rightarrow> Some m | None \<Rightarrow> rmatch r i s g)
               else rmatch r i s g)
      | Star c \<Rightarrow> try_down (\<lambda>k. rmatch r (i + k) (drop k s) g) 0 (run c s)
      | Plus c \<Rightarrow>
          (if run c s = 0 then None
           else try_down (\<lambda>k. rmatch r (i + k) (drop k s) g) 1 (run c s - 1))
      | Alt ws \<Rightarrow>
          first_some (map (\<lambda>w. if starts_with w s
                                then rmatch r (i + length w) (drop (length w) s) g
                                else None) ws)
      | GOpen \<Rightarrow> rmatch r i s (i, snd g)
      | GClose \<Rightarrow> rmatch r i s (fst g, i))"

text \<open>\<open>re.search\<close>: the first start position, from the left, at which the pattern matches.\<close>

definition re_search :: "item list \<Rightarrow> string \<Rightarrow> (nat \<times> nat) option" where
  "re_search p s = first_some (map (\<lambda>i. rmatch p i (drop i s) (0, 0)) [0..<Suc (length s)])"

text \<open>\<open>match.group(1)\<close>.\<close>

definition group1 :: "string \<Rightarrow> nat \<times> nat \<Rightarrow> string" where
  "group1 s g = take (snd g - fst g) (drop (fst g) s)"

definition lit_ci :: "string \<Rightarrow> item list" where
  "lit_ci w = map (\<lambda>p. One (ci p)) w"

section \<open>Chapter detection\<close>

type_synonym mark = "nat \<times> string"

text \<open>
  The four heading patterns, all compiled with \<open>(?i)\<close>. Under that flag a class
  \<open>[A-Z]\<close> takes the letters of both cases, and \<open>[IVX]\<close> the letters whose lower case
  is one of \<open>i\<close>, \<open>v\<close>, \<open>x\<close>.
\<close>

definition ci_in :: "string \<Rightarrow> char \<Rightarrow> bool" where
  "ci_in w c = (py_lower c \<in> set (map py_lower w))"

definition topic_tail :: "char \<Rightarrow> bool" where
  "topic_tail c = (is_ascii_letter c \<or> is_space c \<or> c \<in> set '':,&/()-'')"

definition numbered_tail :: "char \<Rightarrow> bool" where
  "numbered_tail c = (is_ascii_letter c \<or> is_space c \<or> c \<in> set '':,&-'')"

definition not_nl :: "char \<Rightarrow> bool" where
  "not_nl c = (c \<noteq> NL)"

definition is_dot :: "char \<Rightarrow> bool" where
  "is_dot c = (c = CHR ''.'')"

definition is_colon :: "char \<Rightarrow> bool" where
  "is_colon c = (c = CHR '':'')"

text \<open>\<^verbatim>\<open>(?i)^\s*(Topic\s+[IVX]+:\s*[A-Z][A-Za-z\s:,&/()-]+)\<close>\<close>

definition pat_topic :: "item list" where
  "pat_topic =
     [Bol, Star is_space, GOpen] @ lit_ci ''Topic'' @
     [Plus is_space, Plus (ci_in ''IVX''), One is_colon, Star is_space,
      One is_ascii_letter, Plus topic_tail, GClose]"

text \<open>\<^verbatim>\<open>(?i)^\s*(\d+\.\s+[A-Z][A-Za-z\s:,&-]+)$\<close>\<close>

definition pat_numbered :: "item list" where
  "pat_numbered =
     [Bol, Star is_space, GOpen, Plus is_digit, One is_dot, Plus is_space,
      One is_ascii_letter, Plus numbered_tail, GClose, Eol]"

text \<open>\<^verbatim>\<open>(?i)^\s*chapter\s+(\d+\.?\s*[A-Z][^\n]+)\<close>\<close>

definition pat_chapter_digits :: "item list" where
  "pat_chapter_digits =
     [Bol, Star is_space] @ lit_ci ''chapter'' @
     [Plus is_space, GOpen, Plus is_digit, Opt is_dot, Star is_space,
      One is_ascii_letter, Plus not_nl, GClose]"

text \<open>\<^verbatim>\<open>(?i)^\s*chapter\s+(\w+\.?\s*[A-Z][^\n]+)\<close>\<close>

definition pat_chapter_word :: "item list" where
  "pat_chapter_word =
     [Bol, Star is_space] @ lit_ci ''chapter'' @
     [Plus is_space, GOpen, Plus is_word, Opt is_dot, Star is_space,
      One is_ascii_letter, Plus not_nl, GClose]"

definition chapter_patterns :: "item list list" where
  "chapter_patterns = [pat_topic, pat_numbered, pat_chapter_digits, pat_chapter_word]"

text \<open>
  The two patterns of the false-positive filter (no flag: they are case sensitive).
  \<^verbatim>\<open>^\d+\.?\d*\s*(psi|ft|m|cm|kg|lbm|hr|\<degree>F|\<degree>C|kPa|Btu)\<close> and
  \<^verbatim>\<open>^\d+\.?\d*\s+(mol|m3|ft3|L/s)\<close>; the degree sign is U+00B0.
\<close>

definition units_a :: "string list" where
  "units_a = [''psi'', ''ft'', ''m'', ''cm'', ''kg'', ''lbm'', ''hr'',
              [CHR 0xB0, CHR ''F''], [CHR 0xB0, CHR ''C''], ''kPa'', ''Btu'']"

definition units_b :: "string list" where
  "units_b = [''mol'', ''m3'', ''ft3'', ''L/s'']"

definition pat_measure :: "item list" where
  "pat_measure =
     [Bol, Plus is_digit, Opt is_dot, Star is_digit, Star is_space, GOpen, Alt units_a, GClose]"

definition pat_units :: "item list" where
  "pat_units =
     [Bol, Plus is_digit, Opt is_dot, Star is_digit, Plus is_space, GOpen, Alt units_b, GClose]"

text \<open>The condition under which a candidate title is appended (lines 71 to 75).\<close>

definition accept_title :: "string \<Rightarrow> bool" where
  "accept_title t =
     (length t > 10 \<and>
      re_search pat_measure t = None \<and>
      re_search pat_units t = None \<and>
      \<not> contains ''equation'' (map py_lower t) \<and>
      count_list t CHR ''.'' \<le> 2)"

text \<open>\<open>match.group(1).strip()\<close>, then \<open>re.sub(r'\s+', ' ', chapter_title)\<close>.\<close>

definition title_of :: "string \<Rightarrow> nat \<times> nat \<Rightarrow> string" where
  "title_of line g = re_sub_ws '' '' (strip (group1 line g))"

text \<open>
  The loop over the patterns for one line (lines 61 to 79): the \<open>break\<close> stands inside
  the filter's \<open>if\<close>, so after a match whose title the filter rejects the loop goes on
  to the next pattern.
\<close>

fun try_patterns :: "item list list \<Rightarrow> string \<Rightarrow> string option" where
  "try_patterns [] line = None"
| "try_patterns (p # ps) line =
     (case re_search p line of
        None \<Rightarrow> try_patterns ps line
      | Some g \<Rightarrow>
          (let chapter_title = title_of line g
           in if accept_title chapter_title then Some chapter_title
              else try_patterns ps line))"

text \<open>The lines of a page that reach the patterns: the first five, stripped, the empty ones skipped.\<close>

definition inspected_lines :: "string \<Rightarrow> string list" where
  "inspected_lines text = filter (\<lambda>l. l \<noteq> []) (map strip (take 5 (split_nl text)))"

definition page_marks :: "nat \<times> string \<Rightarrow> mark list" where
  "page_marks pt =
     (if strip (snd pt) = [] then []
      else concat (map (\<lambda>line. case try_patterns chapter_patterns line of
                                  None \<Rightarrow> []
                                | Some t \<Rightarrow> [(fst pt, t)])
                       (inspected_lines (snd pt))))"

text \<open>The list \<open>chapters\<close> before line 82, in the order of the appends.\<close>

definition collect_marks :: "(nat \<times> string) list \<Rightarrow> mark list" where
  "collect_marks page_texts = concat (map page_marks page_texts)"

text \<open>
  \<open>list(set(chapters))\<close>: the distinct elements, in the iteration order of the set.
  Python does not fix that order (it follows the hashes, and the hash of a string
  changes from one process to the next), so the order is the parameter \<open>set_order\<close>, a
  rearrangement of the distinct elements.
\<close>

definition list_of_set :: "(mark list \<Rightarrow> mark list) \<Rightarrow> mark list \<Rightarrow> mark list" where
  "list_of_set set_order xs = set_order (remdups xs)"

definition rearranges :: "(mark list \<Rightarrow> mark list) \<Rightarrow> bool" where
  "rearranges set_order = (\<forall>xs. mset (set_order xs) = mset xs)"

text \<open>
  \<open>detect_chapters\<close>. The dictionary \<open>page_texts\<close> is the list of its items in
  iteration order; \<open>chapters.sort(key=lambda x: x[0])\<close> is a stable sort on the page number.
\<close>

definition detect_chapters :: "(mark list \<Rightarrow> mark list) \<Rightarrow> (nat \<times> string) list \<Rightarrow> mark list" where
  "detect_chapters set_order page_texts =
     sort_key fst (list_of_set set_order (collect_marks page_texts))"

section \<open>File names\<close>

text \<open>The decimal digits of a natural number, as \<open>str(n)\<close> writes them.\<close>

definition digit_char :: "nat \<Rightarrow> char" where
  "digit_char d = char_of (48 + d)"

function dec :: "nat \<Rightarrow> string" where
  "dec n = (if n < 10 then [digit_char n] else dec (n div 10) @ [digit_char (n mod 10)])"
  by pat_completeness auto
termination
  by (relation "measure (\<lambda>n. n)") auto

declare dec.simps [simp del]

text \<open>
  The format \<open>{chapter_num:02d}\<close>: the sign, if any, then the digits, filled with
  zeros on the left of the digits up to a width of 2 in all. A number of three or more
  digits is written in full.
\<close>

definition zero_fill :: "nat \<Rightarrow> string \<Rightarrow> string" where
  "zero_fill w s = replicate (w - length s) CHR ''0'' @ s"

definition format_02d :: "int \<Rightarrow> string" where
  "format_02d n =
     (if n < 0 then CHR ''-'' # zero_fill 1 (dec (nat (- n))) else zero_fill 2 (dec (nat n)))"

text \<open>
  Lines 99 to 101. \<open>re.sub(r'[^\w\s-]', '', chapter_title)\<close> deletes every character
  that is not of the class, so it keeps the word characters, the whitespace and the hyphen.
\<close>

definition keep_char :: "char \<Rightarrow> bool" where
  "keep_char c = (is_word c \<or> is_space c \<or> c = CHR ''-'')"

definition clean_title :: "string \<Rightarrow> string" where
  "clean_title chapter_title =
     take 50 (re_sub_ws ''_'' (strip (filter keep_char chapter_title)))"

definition create_chapter_filename :: "string \<Rightarrow> int \<Rightarrow> string" where
  "create_chapter_filename chapter_title chapter_num =
     ''Chapter_'' @ format_02d chapter_num @ ''_'' @ clean_title chapter_title @ ''.pdf''"

section \<open>Page text extraction\<close>

text \<open>
  A PDF is the list of its pages, \<open>reader.pages\<close>. What \<open>page.extract_text()\<close> does on
  a page is the parameter \<open>extract_text\<close>: it returns the text, or raises an exception
  (\<open>None\<close>). The dictionary that \<open>extract_text_from_pdf\<close> builds is the list of its
  items in insertion order.
\<close>

definition extract_text_from_pdf :: "('p \<Rightarrow> string option) \<Rightarrow> 'p list \<Rightarrow> (nat \<times> string) list" where
  "extract_text_from_pdf extract_text pages =
     map (\<lambda>(page_num, page).
            (page_num, case extract_text page of Some text \<Rightarrow> text | None \<Rightarrow> []))
         (enumerate 0 pages)"

section \<open>Splitting\<close>

text \<open>
  The file system: the directories that exist, the content of every regular file, and the
  paths that the operating system refuses to create or to open for writing (a missing
  permission, a parent that cannot be entered, a read-only or full device). The content
  of a chapter file is the list of the pages written to it. A path is the string that the
  program passes to the operating system.
\<close>

record 'p filesystem =
  dirs :: "string set"
  files :: "string \<rightharpoonup> 'p list"
  denied :: "string set"

text \<open>The exceptions that leave \<open>split_pdf_by_chapters\<close>.\<close>

datatype error =
    FileNotFoundError
  | NotADirectoryError
  | IsADirectoryError
  | OSError
  | PdfReadError

text \<open>\<open>os.path.exists\<close>: the empty path names nothing.\<close>

definition path_exists :: "'p filesystem \<Rightarrow> string \<Rightarrow> bool" where
  "path_exists fs p = (p \<noteq> [] \<and> (p \<in> dirs fs \<or> files fs p \<noteq> None))"

text \<open>
  \<open>os.makedirs\<close> on a path that does not exist: it raises \<open>FileNotFoundError\<close> on
  the empty path, and the error of the operating system when the directory is refused.
\<close>

definition makedirs :: "'p filesystem \<Rightarrow> string \<Rightarrow> error + 'p filesystem" where
  "makedirs fs p =
     (if p = [] then Inl FileNotFoundError
      else if p \<in> denied fs then Inl OSError
      else Inr (fs\<lparr>dirs := insert p (dirs fs)\<rparr>))"

text \<open>
  \<open>open(filepath, "wb")\<close> and \<open>writer.write(f)\<close> for a file of the directory \<open>d\<close>:
  the directory must be one, the path must not be a directory, and the operating system
  must grant the write. A regular file of that name is overwritten.
\<close>

definition write_file ::
  "'p filesystem \<Rightarrow> string \<Rightarrow> string \<Rightarrow> 'p list \<Rightarrow> error + 'p filesystem" where
  "write_file fs d filepath content =
     (if d \<notin> dirs fs
      then Inl (if files fs d = None then FileNotFoundError else NotADirectoryError)
      else if filepath \<in> dirs fs then Inl IsADirectoryError
      else if filepath \<in> denied fs then Inl OSError
      else Inr (fs\<lparr>files := (files fs)(filepath \<mapsto> content)\<rparr>))"

text \<open>\<open>os.path.join\<close> of a directory and a file name (POSIX).\<close>

definition path_join :: "string \<Rightarrow> string \<Rightarrow> string" where
  "path_join d f =
     (if f \<noteq> [] \<and> hd f = CHR ''/'' then f
      else if d = [] \<or> last d = CHR ''/'' then d @ f
      else d @ ''/'' @ f)"

text \<open>
  Lines 126 to 129: the last page of chapter \<open>i\<close>. Page numbers are natural numbers (keys
  of \<open>enumerate\<close>, or an operator's page number minus one that is not negative); the
  end page is an integer, for it is \<open>-1\<close> when the next chapter starts on page 0.
\<close>

definition end_page :: "nat \<Rightarrow> mark list \<Rightarrow> nat \<Rightarrow> int" where
  "end_page total_pages chapters i =
     (if i + 1 < length chapters then int (fst (chapters ! (i + 1))) - 1
      else int total_pages - 1)"

text \<open>Lines 134 to 136: the pages added to the writer of one chapter.\<close>

definition chapter_pages :: "'p list \<Rightarrow> nat \<Rightarrow> int \<Rightarrow> 'p list" where
  "chapter_pages pages start_page end_pg =
     map (\<lambda>page_num. pages ! nat page_num)
         (filter (\<lambda>page_num. page_num < int (length pages)) [int start_page..end_pg])"

text \<open>
  One round of the loop of line 124: the file is written, whatever the writer holds. When
  a round has raised, the rounds after it do not run.
\<close>

definition split_step ::
  "'p list \<Rightarrow> string \<Rightarrow> mark list \<Rightarrow> 'p filesystem \<times> (error + string list) \<Rightarrow> nat \<Rightarrow>
   'p filesystem \<times> (error + string list)" where
  "split_step pages output_dir chapters st i =
     (case snd st of
        Inl e \<Rightarrow> st
      | Inr created_files \<Rightarrow>
          (let start_page = fst (chapters ! i);
               chapter_title = snd (chapters ! i);
               writer = chapter_pages pages start_page (end_page (length pages) chapters i);
               filename = create_chapter_filename chapter_title (int i + 1);
               filepath = path_join output_dir filename
           in case write_file (fst st) output_dir filepath writer of
                Inl e \<Rightarrow> (fst st, Inl e)
              | Inr fs' \<Rightarrow> (fs', Inr (created_files @ [filepath]))))"

text \<open>
  \<open>split_pdf_by_chapters\<close>, lines 117 to 149. \<open>pdf\<close> is what
  \<open>PdfReader(input_pdf_path)\<close> gives, \<open>None\<close> when it raises. The result is the file
  system after the call, and the exception raised or the list \<open>created_files\<close>.
\<close>

definition split_pdf_by_chapters ::
  "'p filesystem \<Rightarrow> 'p list option \<Rightarrow> string \<Rightarrow> mark list \<Rightarrow>
   'p filesystem \<times> (error + string list)" where
  "split_pdf_by_chapters fs pdf output_dir chapters =
     (case (if path_exists fs output_dir then Inr fs else makedirs fs output_dir) of
        Inl e \<Rightarrow> (fs, Inl e)
      | Inr fs1 \<Rightarrow>
          (case pdf of
             None \<Rightarrow> (fs1, Inl PdfReadError)
           | Some pages \<Rightarrow>
               foldl (split_step pages output_dir chapters) (fs1, Inr []) [0..<length chapters]))"

section \<open>The entry point\<close>

text \<open>
  \<open>main\<close>, lines 203 to 247. \<open>input_exists\<close> is \<open>os.path.exists(input_pdf)\<close>; \<open>pdf\<close> is
  what \<open>PdfReader(input_pdf)\<close> gives, \<open>None\<close> when it raises, which the \<open>try\<close> of
  line 207 catches, as it catches what \<open>split_pdf_by_chapters\<close> raises. The trace lists
  the components invoked, in order.
\<close>

datatype event = Extract | Detect | Split

datatype outcome =
    InputNotFound
  | ProcessingError
  | NoChapters
  | Created "string list"

record 'p run_result =
  outcome :: outcome
  trace :: "event list"
  final_fs :: "'p filesystem"

definition main ::
  "('p \<Rightarrow> string option) \<Rightarrow> (mark list \<Rightarrow> mark list) \<Rightarrow> string \<Rightarrow>
   bool \<Rightarrow> 'p list option \<Rightarrow> 'p filesystem \<Rightarrow> 'p run_result" where
  "main extract_text set_order output_dir input_exists pdf fs =
     (if \<not> input_exists then \<lparr>outcome = InputNotFound, trace = [], final_fs = fs\<rparr>
      else case pdf of
        None \<Rightarrow> \<lparr>outcome = ProcessingError, trace = [Extract], final_fs = fs\<rparr>
      | Some pages \<Rightarrow>
          (let page_texts = extract_text_from_pdf extract_text pages;
               detected_chapters = detect_chapters set_order page_texts
           in if detected_chapters = []
              then \<lparr>outcome = NoChapters, trace = [Extract, Detect], final_fs = fs\<rparr>
              else (let r = split_pdf_by_chapters fs pdf output_dir detected_chapters
                    in \<lparr>outcome = (case snd r of
                                     Inl e \<Rightarrow> ProcessingError
                                   | Inr created_files \<Rightarrow> Created created_files),
                        trace = [Extract, Detect, Split],
                        final_fs = fst r\<rparr>)))"

section \<open>The specification's words for file names\<close>

text \<open>
  A whole string matches \<^verbatim>\<open>Chapter_\d{2}_.{0,50}\.pdf\<close>: two digits, then at most 50
  characters none of which is a newline.
\<close>

definition fullmatch_filename_pattern :: "string \<Rightarrow> bool" where
  "fullmatch_filename_pattern f =
     (\<exists>d1 d2 slug. f = ''Chapter_'' @ [d1, d2] @ ''_'' @ slug @ ''.pdf'' \<and>
        is_digit d1 \<and> is_digit d2 \<and> length slug \<le> 50 \<and> NL \<notin> set slug)"

text \<open>
  The slug as the specification derives it: strip every character that is not
  alphanumeric, whitespace or hyphen; collapse whitespace runs to single underscores;
  truncate to 50 characters.
\<close>

definition spec_slug :: "string \<Rightarrow> string" where
  "spec_slug chapter_title =
     take 50 (re_sub_ws ''_''
       (filter (\<lambda>c. is_alnum c \<or> is_space c \<or> c = CHR ''-'') chapter_title))"

section \<open>Example documents\<close>

text \<open>A heading that stands twice on page 3, and a heading on page 0, listed after it.\<close>

definition twice_page :: "(nat \<times> string) list" where
  "twice_page =
     [(3, ''Chapter 2. Thermodynamics'' @ [NL] @ ''Chapter 2. Thermodynamics''),
      (0, ''Topic I: Mass and Energy Balances'')]"

text \<open>Two different headings on the same page.\<close>

definition shared_page :: "(nat \<times> string) list" where
  "shared_page = [(0, ''Chapter 1. Fluid Properties'' @ [NL] @ ''Chapter 2. Thermodynamics'')]"

text \<open>The four pages of the scenario of the specification.\<close>

definition book_pages :: "(nat \<times> string) list" where
  "book_pages =
     [(0, ''Topic I: Mass and Energy Balances''), (1, ''some content''),
      (2, ''Chapter 2. Thermodynamics''), (3, ''more content'')]"

text \<open>A PDF of two pages without any heading.\<close>

definition plain_pdf :: "string list" where
  "plain_pdf = [''some content'', ''more content'']"

section \<open>Auxiliary notions for the proofs\<close>

text \<open>The number that a string of decimal digits stands for.\<close>

definition undec :: "string \<Rightarrow> nat" where
  "undec s = foldl (\<lambda>a c. 10 * a + (code c - 48)) 0 s"

text \<open>The path and the content of the file of chapter \<open>i\<close>.\<close>

definition chapter_path :: "string \<Rightarrow> mark list \<Rightarrow> nat \<Rightarrow> string" where
  "chapter_path output_dir chapters i =
     path_join output_dir (create_chapter_filename (snd (chapters ! i)) (int i + 1))"

definition chapter_content :: "'p list \<Rightarrow> mark list \<Rightarrow> nat \<Rightarrow> 'p list" where
  "chapter_content pages chapters i =
     chapter_pages pages (fst (chapters ! i)) (end_page (length pages) chapters i)"

text \<open>The marks of the scenario of the specification, and a source of four pages.\<close>

definition book_marks :: "mark list" where
  "book_marks = [(0, ''Topic I: Mass and Energy Balances''), (2, ''2. Thermodynamics'')]"

definition book_pdf :: "string list" where
  "book_pdf = [''page 1'', ''page 2'', ''page 3'', ''page 4'']"

definition empty_fs :: "string filesystem" where
  "empty_fs = \<lparr>dirs = {}, files = Map.empty, denied = {}\<rparr>"

text \<open>Two marks on page 0, and a mark past the end of a source of four pages.\<close>

definition clash_marks :: "mark list" where
  "clash_marks = [(0, ''1. Fluid Properties''), (0, ''2. Thermodynamics''), (9, ''3. Heat Transfer'')]"

text \<open>The class of the first character that a pattern asks for, when its first item tells.\<close>

fun first_class :: "item list \<Rightarrow> (char \<Rightarrow> bool) option" where
  "first_class (One c # r) = Some c"
| "first_class (Plus c # r) = Some c"
| "first_class (GOpen # r) = first_class r"
| "first_class (GClose # r) = first_class r"
| "first_class r = None"

text \<open>An item that is not a parenthesis of the group.\<close>

fun plain :: "item \<Rightarrow> bool" where
  "plain GOpen = False"
| "plain GClose = False"
| "plain x = True"

section \<open>The specification's words for the choice of the pattern\<close>

text \<open>
  First match wins: the title captured by the first pattern, in the order of the list,
  that matches the line; the later patterns are not asked.
\<close>

fun first_match :: "item list list \<Rightarrow> string \<Rightarrow> string option" where
  "first_match [] line = None"
| "first_match (p # ps) line =
     (case re_search p line of
        None \<Rightarrow> first_match ps line
      | Some g \<Rightarrow> Some (title_of line g))"

text \<open>A heading that both chapter patterns match and that the filter rejects as a measurement.\<close>

definition gauge_line :: string where
  "gauge_line = ''Chapter 12 psi gauge pressure''"

section \<open>The specification's words for the false-positive filter\<close>

text \<open>
  The unit vocabulary as the specification lists it, and a title that begins with a
  number immediately followed by one of its tokens: a run of digits, then the token.
\<close>

definition spec_units :: "string list" where
  "spec_units = [''psi'', ''ft'', ''kg'', [CHR 0xB0, CHR ''F''], [CHR 0xB0, CHR ''C''],
                 ''kPa'', ''Btu'', ''mol'', ''m3'', ''ft3'', ''L/s'']"

definition number_then_unit :: "string \<Rightarrow> bool" where
  "number_then_unit t =
     (takeWhile is_digit t \<noteq> [] \<and>
      list_ex (\<lambda>u. starts_with u (dropWhile is_digit t)) spec_units)"

text \<open>
  A measurement at the head of a title: digits, an optional period, further digits,
  white space, a unit. Between the number and a unit of the first list the white space
  may be empty; before a unit of the second list it may not.
\<close>

definition measurement :: "string \<Rightarrow> bool" where
  "measurement t =
     (\<exists>ds dot fr ws u rest.
        t = ds @ dot @ fr @ ws @ u @ rest \<and>
        ds \<noteq> [] \<and> list_all is_digit ds \<and>
        (dot = [] \<or> dot = ''.'') \<and>
        list_all is_digit fr \<and>
        list_all is_space ws \<and>
        (u \<in> set units_a \<or> ws \<noteq> [] \<and> u \<in> set units_b))"

text \<open>The title holds the word ``equation'', in whatever case.\<close>

definition mentions_equation :: "string \<Rightarrow> bool" where
  "mentions_equation t = (\<exists>pre post. map py_lower t = pre @ ''equation'' @ post)"

text \<open>A page whose heading starts with a flow rate written without a blank.\<close>

definition flow_page :: "(nat \<times> string) list" where
  "flow_page = [(0, ''Chapter 12L/s flow rates in pipes'')]"

section \<open>The specification's words for the ordinal in a file name\<close>

text \<open>
  The file name matches the pattern and its two digits are the ordinal, padded with a
  zero when it is below 10: two digits that stand for the ordinal.
\<close>

definition fullmatch_with_ordinal :: "string \<Rightarrow> int \<Rightarrow> bool" where
  "fullmatch_with_ordinal f n =
     (\<exists>d1 d2 slug. f = ''Chapter_'' @ [d1, d2] @ ''_'' @ slug @ ''.pdf'' \<and>
        is_digit d1 \<and> is_digit d2 \<and> int (undec [d1, d2]) = n \<and>
        length slug \<le> 50 \<and> NL \<notin> set slug)"

text \<open>The digits of a positive number, all of them and no zero in front.\<close>

definition decimal_numeral :: "string \<Rightarrow> nat \<Rightarrow> bool" where
  "decimal_numeral ds n =
     (ds \<noteq> [] \<and> list_all is_digit ds \<and> hd ds \<noteq> CHR ''0'' \<and> undec ds = n)"

section \<open>Page text extraction: every page has its entry\<close>

text \<open>
  C3. For a PDF of \<open>length pages\<close> pages the keys of the mapping returned by
  \<open>extract_text_from_pdf\<close> are exactly \<open>0, ..., length pages - 1\<close>, each once and in
  order; the entry of a page whose extraction raises is the empty string, and the entry
  of every other page is its text, whatever happened on the pages before it.
\<close>

theorem extract_text_total:
  "map fst (extract_text_from_pdf extract_text pages) = [0..<length pages] \<and>
   (\<forall>i<length pages.
      extract_text_from_pdf extract_text pages ! i =
        (i, case extract_text (pages ! i) of Some text \<Rightarrow> text | None \<Rightarrow> []))"
proof
  have "map fst (extract_text_from_pdf extract_text pages) = map fst (enumerate 0 pages)"
    by (simp add: extract_text_from_pdf_def case_prod_unfold comp_def)
  then show "map fst (extract_text_from_pdf extract_text pages) = [0..<length pages]"
    by simp
next
  show "\<forall>i<length pages.
      extract_text_from_pdf extract_text pages ! i =
        (i, case extract_text (pages ! i) of Some text \<Rightarrow> text | None \<Rightarrow> [])"
    by (simp add: extract_text_from_pdf_def nth_enumerate_eq)
qed

theorem extract_text_total_witness:
  "map fst (extract_text_from_pdf (\<lambda>p. if p = ''bad'' then None else Some p) [''a'', ''bad'', ''c''])
     = [0, 1, 2] \<and>
   extract_text_from_pdf (\<lambda>p. if p = ''bad'' then None else Some p) [''a'', ''bad'', ''c''] ! 1
     = (1, []) \<and>
   extract_text_from_pdf (\<lambda>p. if p = ''bad'' then None else Some p) [''a'', ''bad'', ''c''] ! 2
     = (2, ''c'')"
  using extract_text_total [of "\<lambda>p. if p = ''bad'' then None else Some p" "[''a'', ''bad'', ''c'']"]
  by (simp add: upt_rec)

section \<open>Chapter detection: order and duplicates\<close>

lemma rearranges_rev: "rearranges rev"
  by (simp add: rearranges_def)

lemma rearranges_id: "rearranges id"
  by (simp add: rearranges_def)

lemma list_of_set_mset:
  "rearranges set_order \<Longrightarrow> mset (list_of_set set_order xs) = mset (remdups xs)"
  by (simp add: rearranges_def list_of_set_def)

lemma list_of_set_set:
  assumes "rearranges set_order"
  shows "set (list_of_set set_order xs) = set xs"
proof -
  have "set (list_of_set set_order xs) = set_mset (mset (list_of_set set_order xs))"
    by simp
  also have "\<dots> = set_mset (mset (remdups xs))"
    using assms by (simp only: list_of_set_mset)
  finally show ?thesis by simp
qed

lemma list_of_set_distinct:
  assumes "rearranges set_order"
  shows "distinct (list_of_set set_order xs)"
proof -
  have "mset (list_of_set set_order xs) = mset (remdups xs)"
    using assms by (rule list_of_set_mset)
  then have "distinct (list_of_set set_order xs) = distinct (remdups xs)"
    by (rule mset_eq_imp_distinct_iff)
  then show ?thesis by simp
qed

text \<open>
  C2. Whatever the iteration order of the intermediate set, \<open>detect_chapters\<close> returns
  a sequence sorted ascending by page number, in which no pair of page number and title
  stands twice, and which holds exactly the pairs collected from the pages.
\<close>

theorem detect_chapters_sorted_distinct:
  assumes "rearranges set_order"
  shows "sorted (map fst (detect_chapters set_order page_texts)) \<and>
         distinct (detect_chapters set_order page_texts) \<and>
         set (detect_chapters set_order page_texts) = set (collect_marks page_texts)"
  using assms
  by (simp add: detect_chapters_def list_of_set_distinct list_of_set_set)

lemma twice_page_collect:
  "collect_marks twice_page =
     [(3, ''2. Thermodynamics''), (3, ''2. Thermodynamics''), (0, ''Topic I: Mass and Energy Balances'')]"
  by code_simp

theorem detect_chapters_sorted_distinct_witness:
  "rearranges rev \<and>
   sorted (map fst (detect_chapters rev twice_page)) \<and>
   distinct (detect_chapters rev twice_page) \<and>
   set (detect_chapters rev twice_page) =
     {(3, ''2. Thermodynamics''), (0, ''Topic I: Mass and Energy Balances'')}"
  using detect_chapters_sorted_distinct [OF rearranges_rev, of twice_page] rearranges_rev
  by (simp add: twice_page_collect)

lemma shared_page_collect:
  "collect_marks shared_page = [(0, ''1. Fluid Properties''), (0, ''2. Thermodynamics'')]"
  by code_simp

text \<open>
  C9, as stated, fails: two marks of the same page come out in the iteration order of the
  intermediate set, which Python does not fix. On \<open>shared_page\<close> two iteration orders
  of the same set give two different results.
\<close>

theorem detect_chapters_ties_follow_set_order:
  "rearranges id \<and> rearranges rev \<and>
   detect_chapters id shared_page \<noteq> detect_chapters rev shared_page"
  using rearranges_id rearranges_rev
  by (simp add: detect_chapters_def list_of_set_def shared_page_collect)

lemma collect_marks_set_cong:
  assumes "mset pts2 = mset pts1"
  shows "set (collect_marks pts2) = set (collect_marks pts1)"
proof -
  have "set pts2 = set pts1"
    using assms by (rule mset_eq_setD)
  then show ?thesis
    by (simp add: collect_marks_def)
qed

lemma list_of_set_mset_cong:
  assumes "rearranges o1" "rearranges o2" "set xs = set ys"
  shows "mset (list_of_set o1 xs) = mset (list_of_set o2 ys)"
proof -
  have "mset (remdups xs) = mset (remdups ys)"
    using assms(3) by (rule iffD1 [OF set_eq_iff_mset_remdups_eq])
  then show ?thesis
    using assms(1,2) by (simp add: list_of_set_mset)
qed

lemma map_sort_key_fst: "map f (sort_key f xs) = sort (map f xs)"
proof -
  have "mset (map f (sort_key f xs)) = mset (map f xs)"
    by simp
  moreover have "sorted (map f (sort_key f xs))"
    by simp
  ultimately have "sort (map f xs) = map f (sort_key f xs)"
    by (rule properties_for_sort)
  then show ?thesis
    by (rule sym)
qed

text \<open>
  C9, amended. Take the same page texts enumerated in two orders, and any two iteration
  orders of the intermediate set. The two results hold the same marks, each once, and the
  same ascending sequence of page numbers; when no two collected marks share a page
  number, the two results are the same sequence. The marks of one page stand in the
  result in the order in which the iteration of the intermediate set gives them.
\<close>

theorem detect_chapters_order_independent:
  assumes "rearranges o1" and "rearranges o2" and "mset pts2 = mset pts1"
  shows "mset (detect_chapters o1 pts1) = mset (detect_chapters o2 pts2) \<and>
         distinct (detect_chapters o1 pts1) \<and> distinct (detect_chapters o2 pts2) \<and>
         map fst (detect_chapters o1 pts1) = map fst (detect_chapters o2 pts2) \<and>
         sorted (map fst (detect_chapters o1 pts1)) \<and>
         (inj_on fst (set (collect_marks pts1)) \<longrightarrow>
            detect_chapters o1 pts1 = detect_chapters o2 pts2) \<and>
         (\<forall>k. filter (\<lambda>m. fst m = k) (detect_chapters o1 pts1) =
               filter (\<lambda>m. fst m = k) (list_of_set o1 (collect_marks pts1))) \<and>
         (\<forall>k. filter (\<lambda>m. fst m = k) (detect_chapters o2 pts2) =
               filter (\<lambda>m. fst m = k) (list_of_set o2 (collect_marks pts2)))"
proof -
  let ?A = "list_of_set o1 (collect_marks pts1)"
  let ?B = "list_of_set o2 (collect_marks pts2)"
  have s: "set (collect_marks pts1) = set (collect_marks pts2)"
    using assms(3) by (rule collect_marks_set_cong [symmetric])
  have m: "mset ?A = mset ?B"
    using assms(1,2) s by (rule list_of_set_mset_cong)
  have 1: "mset (detect_chapters o1 pts1) = mset (detect_chapters o2 pts2)"
    unfolding detect_chapters_def mset_sort by (rule m)
  have "image_mset fst (mset ?A) = image_mset fst (mset ?B)"
    using m by (rule arg_cong)
  then have "mset (map fst ?A) = mset (map fst ?B)"
    by (simp only: mset_map)
  then have "mset (sort (map fst ?B)) = mset (map fst ?A)"
    by (simp only: mset_sort)
  then have "sort (map fst ?A) = sort (map fst ?B)"
    by (rule properties_for_sort) (rule sorted_sort)
  then have 2: "map fst (detect_chapters o1 pts1) = map fst (detect_chapters o2 pts2)"
    by (simp only: detect_chapters_def map_sort_key_fst)
  have 3: "detect_chapters o1 pts1 = detect_chapters o2 pts2"
    if "inj_on fst (set (collect_marks pts1))"
  proof -
    have "inj_on fst (set ?A)"
      using that assms(1) by (simp only: list_of_set_set)
    with m show ?thesis
      unfolding detect_chapters_def by (rule sort_key_eq_sort_key)
  qed
  have "distinct ?A"
    using assms(1) by (rule list_of_set_distinct)
  then have 4: "distinct (detect_chapters o1 pts1)"
    by (simp only: detect_chapters_def distinct_sort)
  have "distinct ?B"
    using assms(2) by (rule list_of_set_distinct)
  then have 5: "distinct (detect_chapters o2 pts2)"
    by (simp only: detect_chapters_def distinct_sort)
  have 6: "sorted (map fst (detect_chapters o1 pts1))"
    unfolding detect_chapters_def by (rule sorted_sort_key)
  have 7: "filter (\<lambda>m. fst m = k) (detect_chapters o1 pts1) = filter (\<lambda>m. fst m = k) ?A" for k
    unfolding detect_chapters_def by (rule sort_key_stable)
  have 8: "filter (\<lambda>m. fst m = k) (detect_chapters o2 pts2) = filter (\<lambda>m. fst m = k) ?B" for k
    unfolding detect_chapters_def by (rule sort_key_stable)
  from 1 2 3 4 5 6 7 8 show ?thesis by (intro conjI impI allI)
qed

lemma book_pages_collect:
  "collect_marks book_pages = [(0, ''Topic I: Mass and Energy Balances''), (2, ''2. Thermodynamics'')]"
  by code_simp

lemma shared_page_set_order:
  "filter (\<lambda>m. fst m = 0) (list_of_set rev (collect_marks shared_page)) =
     [(0, ''2. Thermodynamics''), (0, ''1. Fluid Properties'')]"
  by (simp add: list_of_set_def shared_page_collect)

theorem detect_chapters_order_independent_witness:
  "rearranges id \<and> rearranges rev \<and> mset (rev book_pages) = mset book_pages \<and>
   inj_on fst (set (collect_marks book_pages)) \<and>
   detect_chapters id book_pages = detect_chapters rev (rev book_pages) \<and>
   distinct (detect_chapters id book_pages) \<and>
   sorted (map fst (detect_chapters id book_pages)) \<and>
   filter (\<lambda>m. fst m = 0) (detect_chapters rev shared_page) =
     [(0, ''2. Thermodynamics''), (0, ''1. Fluid Properties'')]"
proof -
  have i: "inj_on fst (set (collect_marks book_pages))"
    by (simp add: book_pages_collect)
  have m: "mset (rev book_pages) = mset book_pages"
    by simp
  note T = detect_chapters_order_independent [OF rearranges_id rearranges_rev m]
  from T i have e: "detect_chapters id book_pages = detect_chapters rev (rev book_pages)"
    by (elim conjE) (erule mp)
  from T have d: "distinct (detect_chapters id book_pages)"
    by (elim conjE)
  from T have s: "sorted (map fst (detect_chapters id book_pages))"
    by (elim conjE)
  from detect_chapters_order_independent [OF rearranges_rev rearranges_id refl, of shared_page]
  have "filter (\<lambda>m. fst m = 0) (detect_chapters rev shared_page) =
      filter (\<lambda>m. fst m = 0) (list_of_set rev (collect_marks shared_page))"
    by (elim conjE) (erule allE)
  then have t: "filter (\<lambda>m. fst m = 0) (detect_chapters rev shared_page) =
      [(0, ''2. Thermodynamics''), (0, ''1. Fluid Properties'')]"
    by (simp only: shared_page_set_order)
  from i m e d s t show ?thesis
    using rearranges_id rearranges_rev by (intro conjI)
qed

section \<open>File names: the pattern and the slug\<close>

lemma digit_char_0: "digit_char 0 = CHR ''0''"
  by code_simp

lemma set_re_sub_ws:
  "set (re_sub_ws rep s) \<subseteq> set rep \<union> {c \<in> set s. \<not> is_space c}"
proof (induction rep s rule: re_sub_ws.induct)
  case (1 rep)
  then show ?case by simp
next
  case (2 rep c cs)
  show ?case
  proof (cases "is_space c")
    case True
    have "set (dropWhile is_space cs) \<subseteq> set cs"
      by (auto dest: set_dropWhileD)
    with 2(1) [OF True] True show ?thesis
      by auto
  next
    case False
    with 2(2) [OF False] show ?thesis
      by auto
  qed
qed

lemma set_strip: "set (strip s) \<subseteq> set s"
  by (auto simp: strip_def dest!: set_dropWhileD)

lemma is_digit_digit_char: "d < 10 \<Longrightarrow> is_digit (digit_char d)"
  by (simp add: is_digit_def digit_char_def code_def)

lemma dec_small: "n < 10 \<Longrightarrow> dec n = [digit_char n]"
  by (subst dec.simps) simp

lemma dec_two: "10 \<le> n \<Longrightarrow> n < 100 \<Longrightarrow> dec n = [digit_char (n div 10), digit_char (n mod 10)]"
  by (subst dec.simps) (simp add: dec_small)

lemma format_02d_two:
  assumes "0 \<le> n" "n < 100"
  shows "format_02d n = [digit_char (nat n div 10), digit_char (nat n mod 10)]"
proof (cases "nat n < 10")
  case True
  then show ?thesis
    using assms by (simp add: format_02d_def zero_fill_def dec_small digit_char_0)
next
  case False
  then show ?thesis
    using assms by (simp add: format_02d_def zero_fill_def dec_two)
qed

lemma undec_snoc: "undec (s @ [c]) = 10 * undec s + (code c - 48)"
  by (simp add: undec_def)

lemma code_digit_char: "d < 10 \<Longrightarrow> code (digit_char d) = 48 + d"
  by (simp add: code_def digit_char_def)

lemma undec_dec: "undec (dec n) = n"
proof (induction n rule: dec.induct)
  case (1 n)
  show ?case
  proof (cases "n < 10")
    case True
    then have "dec n = [digit_char n]"
      by (subst dec.simps) simp
    with True show ?thesis
      by (simp add: undec_def code_digit_char)
  next
    case False
    then have d: "dec n = dec (n div 10) @ [digit_char (n mod 10)]"
      by (subst dec.simps) simp
    have "undec (dec (n div 10)) = n div 10"
      using 1 False by simp
    then show ?thesis
      by (simp add: d undec_snoc code_digit_char)
  qed
qed

lemma undec_zeros: "undec (replicate k CHR ''0'' @ s) = undec s"
proof -
  have "foldl (\<lambda>a c. 10 * a + (code c - 48)) 0 (replicate k CHR ''0'') = 0"
    by (induction k) (simp_all add: code_def)
  then show ?thesis
    by (simp add: undec_def)
qed

lemma dec_digits: "\<forall>c \<in> set (dec n). is_digit c"
proof (induction n rule: dec.induct)
  case (1 n)
  show ?case
  proof (cases "n < 10")
    case True
    then have "dec n = [digit_char n]"
      by (subst dec.simps) simp
    with True show ?thesis
      by (simp add: is_digit_def code_digit_char)
  next
    case False
    then have d: "dec n = dec (n div 10) @ [digit_char (n mod 10)]"
      by (subst dec.simps) simp
    have "\<forall>c \<in> set (dec (n div 10)). is_digit c"
      using 1 False by simp
    then show ?thesis
      by (simp add: d is_digit_def code_digit_char)
  qed
qed

lemma format_02d_digits: "0 \<le> n \<Longrightarrow> \<forall>c \<in> set (format_02d n). is_digit c"
  using dec_digits [of "nat n"]
  by (auto simp: format_02d_def zero_fill_def is_digit_def code_def)

lemma undec_format_02d: "0 \<le> n \<Longrightarrow> undec (format_02d n) = nat n"
  by (simp add: format_02d_def zero_fill_def undec_zeros undec_dec)

lemma clean_title_chars:
  "c \<in> set (clean_title t) \<Longrightarrow> (is_alnum c \<or> c = CHR ''_'' \<or> c = CHR ''-'') \<and> \<not> is_space c"
proof -
  assume "c \<in> set (clean_title t)"
  then have "c \<in> set (re_sub_ws ''_'' (strip (filter keep_char t)))"
    unfolding clean_title_def by (rule in_set_takeD)
  with set_re_sub_ws have "c \<in> set ''_'' \<union> {c \<in> set (strip (filter keep_char t)). \<not> is_space c}"
    by blast
  then consider "c = CHR ''_''" | "c \<in> set (strip (filter keep_char t))" "\<not> is_space c"
    by auto
  then show ?thesis
  proof cases
    case 1
    then show ?thesis by (simp add: is_space_def code_def)
  next
    case 2
    with set_strip have "c \<in> set (filter keep_char t)" by blast
    then have "keep_char c" by simp
    with 2(2) show ?thesis by (auto simp: keep_char_def is_word_def)
  qed
qed

lemma NL_is_space: "is_space NL"
  by (simp add: is_space_def NL_def code_def)

lemma dec_step: "10 \<le> n \<Longrightarrow> dec n = dec (n div 10) @ [digit_char (n mod 10)]"
  by (subst dec.simps) simp

lemma dec_nonempty: "dec n \<noteq> []"
  by (subst dec.simps) simp

lemma dec_length_3:
  assumes "100 \<le> n"
  shows "3 \<le> length (dec n)"
proof -
  have "dec n = dec (n div 10) @ [digit_char (n mod 10)]"
    using assms by (intro dec_step) simp
  moreover have "dec (n div 10) = dec (n div 10 div 10) @ [digit_char (n div 10 mod 10)]"
    using assms by (intro dec_step) simp
  moreover have "1 \<le> length (dec (n div 10 div 10))"
    using dec_nonempty [of "n div 10 div 10"] by (cases "dec (n div 10 div 10)") simp_all
  ultimately show ?thesis
    by simp
qed

lemma digit_char_not_0:
  assumes "0 < d" and "d < 10"
  shows "digit_char d \<noteq> CHR ''0''"
proof
  assume "digit_char d = CHR ''0''"
  then have "code (digit_char d) = code (CHR ''0'')"
    by (rule arg_cong)
  moreover have "code (digit_char d) = 48 + d"
    using assms(2) by (rule code_digit_char)
  moreover have "code (CHR ''0'') = 48"
    by (simp add: code_def)
  ultimately have "48 + d = 48"
    by (simp only:)
  with assms(1) show False
    by simp
qed

lemma dec_hd: "0 < n \<Longrightarrow> hd (dec n) \<noteq> CHR ''0''"
proof (induction n rule: dec.induct)
  case (1 n)
  show ?case
  proof (cases "n < 10")
    case True
    with 1(2) show ?thesis
      by (simp add: dec_small digit_char_not_0)
  next
    case False
    then have d: "dec n = dec (n div 10) @ [digit_char (n mod 10)]"
      by (intro dec_step) simp
    have "hd (dec (n div 10)) \<noteq> CHR ''0''"
      using 1(1) False by simp
    then show ?thesis
      by (simp add: d hd_append dec_nonempty)
  qed
qed

lemma dec_numeral: "0 < n \<Longrightarrow> decimal_numeral (dec n) n"
  using dec_digits [of n]
  by (simp add: decimal_numeral_def dec_nonempty dec_hd undec_dec list_all_iff)

lemma format_02d_full:
  assumes "100 \<le> n"
  shows "format_02d n = dec (nat n)"
proof -
  have "3 \<le> length (dec (nat n))"
    using assms by (intro dec_length_3) simp
  then show ?thesis
    using assms by (simp add: format_02d_def zero_fill_def)
qed

lemma underscore_no_digit: "\<not> is_digit (CHR ''_'')"
  by (simp add: is_digit_def code_def)

lemma long_numeral_no_match:
  assumes "3 \<le> length ds" and "list_all is_digit ds"
  shows "\<not> fullmatch_filename_pattern (''Chapter_'' @ ds @ ''_'' @ slug @ ''.pdf'')"
proof
  assume "fullmatch_filename_pattern (''Chapter_'' @ ds @ ''_'' @ slug @ ''.pdf'')"
  then obtain d1 d2 slug' where
    e: "''Chapter_'' @ ds @ ''_'' @ slug @ ''.pdf'' = ''Chapter_'' @ [d1, d2] @ ''_'' @ slug' @ ''.pdf''"
    unfolding fullmatch_filename_pattern_def by blast
  from assms(1) obtain a b c r where ds: "ds = a # b # c # r"
    by (cases ds; cases "tl ds"; cases "tl (tl ds)") auto
  from e have "c = CHR ''_''"
    by (simp add: ds)
  moreover have "is_digit c"
    using assms(2) by (simp add: ds)
  ultimately show False
    by (simp add: underscore_no_digit)
qed

lemma two_digits_ordinal:
  assumes "0 \<le> n" and "n < 100"
  shows "int (undec [digit_char (nat n div 10), digit_char (nat n mod 10)]) = n"
proof -
  have "nat n div 10 < 10"
    using assms by simp
  then have "undec [digit_char (nat n div 10), digit_char (nat n mod 10)] =
      10 * (nat n div 10) + nat n mod 10"
    by (simp add: undec_def code_digit_char)
  then show ?thesis
    using assms by simp
qed

text \<open>
  C6, amended. \<open>create_chapter_filename\<close> is a total function: it returns a file name
  for every title, the empty and the symbol-only ones too, and every ordinal. For every
  ordinal from 1 to 99 its output matches \<^verbatim>\<open>Chapter_\d{2}_.{0,50}\.pdf\<close>, and the two
  digits are those of the ordinal, padded with a zero to two digits. For every ordinal
  from 100 on the name holds the digits of the ordinal, all of them and no zero in front,
  and does not match the pattern.
\<close>

theorem create_chapter_filename_pattern:
  assumes "0 < n"
  shows "(n < 100 \<longrightarrow>
            fullmatch_filename_pattern (create_chapter_filename t n) \<and>
            fullmatch_with_ordinal (create_chapter_filename t n) n) \<and>
         (100 \<le> n \<longrightarrow>
            create_chapter_filename t n =
              ''Chapter_'' @ dec (nat n) @ ''_'' @ clean_title t @ ''.pdf'' \<and>
            decimal_numeral (dec (nat n)) (nat n) \<and>
            3 \<le> length (dec (nat n)) \<and>
            \<not> fullmatch_filename_pattern (create_chapter_filename t n))"
proof (intro conjI impI)
  let ?d1 = "digit_char (nat n div 10)" and ?d2 = "digit_char (nat n mod 10)"
  have l: "length (clean_title t) \<le> 50"
    by (simp add: clean_title_def)
  have nl: "NL \<notin> set (clean_title t)"
    using clean_title_chars [of NL t] NL_is_space by blast
  {
    assume small: "n < 100"
    have f: "format_02d n = [?d1, ?d2]"
      using assms small by (simp add: format_02d_two)
    have "nat n div 10 < 10"
      using small by simp
    then have d1: "is_digit ?d1" by (rule is_digit_digit_char)
    have d2: "is_digit ?d2" by (rule is_digit_digit_char) simp
    have u: "int (undec [?d1, ?d2]) = n"
      using assms small by (intro two_digits_ordinal) simp_all
    have e: "create_chapter_filename t n =
        ''Chapter_'' @ [?d1, ?d2] @ ''_'' @ clean_title t @ ''.pdf''"
      by (simp add: create_chapter_filename_def f)
    from e d1 d2 l nl show "fullmatch_filename_pattern (create_chapter_filename t n)"
      unfolding fullmatch_filename_pattern_def by blast
    from e d1 d2 u l nl show "fullmatch_with_ordinal (create_chapter_filename t n) n"
      unfolding fullmatch_with_ordinal_def by blast
  }
  {
    assume big: "100 \<le> n"
    have f: "format_02d n = dec (nat n)"
      using big by (rule format_02d_full)
    show e: "create_chapter_filename t n =
        ''Chapter_'' @ dec (nat n) @ ''_'' @ clean_title t @ ''.pdf''"
      by (simp add: create_chapter_filename_def f)
    show "decimal_numeral (dec (nat n)) (nat n)"
      using big by (intro dec_numeral) simp
    show 3: "3 \<le> length (dec (nat n))"
      using big by (intro dec_length_3) simp
    have "list_all is_digit (dec (nat n))"
      using dec_digits [of "nat n"] by (simp add: list_all_iff)
    with 3 show "\<not> fullmatch_filename_pattern (create_chapter_filename t n)"
      unfolding e by (rule long_numeral_no_match)
  }
qed

lemma ordinal_bounds:
  "(0::int) < 7" "(7::int) < 100" "(0::int) < 123" "(100::int) \<le> 123"
  by simp_all

theorem create_chapter_filename_pattern_witness:
  "(0::int) < 7 \<and> (7::int) < 100 \<and>
   fullmatch_filename_pattern (create_chapter_filename ''!!!'' 7) \<and>
   fullmatch_with_ordinal (create_chapter_filename ''!!!'' 7) 7 \<and>
   (0::int) < 123 \<and> (100::int) \<le> 123 \<and>
   create_chapter_filename ''x'' 123 =
     ''Chapter_'' @ dec (nat 123) @ ''_'' @ clean_title ''x'' @ ''.pdf'' \<and>
   decimal_numeral (dec (nat 123)) (nat 123) \<and>
   \<not> fullmatch_filename_pattern (create_chapter_filename ''x'' 123)"
  using create_chapter_filename_pattern [OF ordinal_bounds(1), of "''!!!''"]
    create_chapter_filename_pattern [OF ordinal_bounds(3), of "''x''"]
    ordinal_bounds
  by blast

lemma filename_ordinal_100: "create_chapter_filename ''x'' 100 = ''Chapter_100_x.pdf''"
  by code_simp

text \<open>
  C6, as stated, fails for the ordinals from 100 on: the format \<open>02d\<close> sets a least
  width, and a number of three digits is written with its three digits.
\<close>

theorem create_chapter_filename_three_digits:
  "(0::int) < 100 \<and> \<not> fullmatch_filename_pattern (create_chapter_filename ''x'' 100)"
  by (simp add: filename_ordinal_100 fullmatch_filename_pattern_def)

lemma create_chapter_filename_degenerate:
  "create_chapter_filename [] 1 = ''Chapter_01_.pdf''"
  "create_chapter_filename ''!?*'' 12 = ''Chapter_12_.pdf''"
  "create_chapter_filename ''   '' 3 = ''Chapter_03_.pdf''"
  by code_simp+

lemma clean_title_underscore: "clean_title ''a_b'' = ''a_b''"
  by code_simp

lemma spec_slug_underscore: "spec_slug ''a_b'' = ''ab''"
  by code_simp

text \<open>
  C7, as stated, fails: \<open>\w\<close> takes the underscore, so an underscore of the title stays
  in the slug, though the title has no whitespace; and the specification's three steps
  give another slug.
\<close>

theorem clean_title_keeps_underscore:
  "clean_title ''a_b'' \<noteq> spec_slug ''a_b'' \<and>
   CHR ''_'' \<in> set (clean_title ''a_b'') \<and> \<not> list_ex is_space ''a_b''"
proof -
  have "\<not> list_ex is_space ''a_b''"
    by code_simp
  then show ?thesis
    by (simp add: clean_title_underscore spec_slug_underscore)
qed

text \<open>The code also trims the whitespace at both ends before it collapses the runs.\<close>

lemma clean_title_trims:
  "clean_title '' a'' = ''a'' \<and> spec_slug '' a'' = ''_a''"
  by code_simp

text \<open>
  C7, amended. The slug in the output of \<open>create_chapter_filename\<close> is obtained by
  removing every character that is not alphanumeric, underscore, whitespace or hyphen,
  then trimming the whitespace at both ends, then collapsing every whitespace run to one
  underscore, then truncating to 50 characters. Every character of the slug is
  alphanumeric, an underscore or a hyphen, and none is whitespace.
\<close>

theorem slug_derivation:
  "create_chapter_filename t n = ''Chapter_'' @ format_02d n @ ''_'' @ clean_title t @ ''.pdf'' \<and>
   clean_title t =
     take 50 (re_sub_ws ''_'' (strip (filter
       (\<lambda>c. is_alnum c \<or> c = CHR ''_'' \<or> is_space c \<or> c = CHR ''-'') t))) \<and>
   length (clean_title t) \<le> 50 \<and>
   (\<forall>c \<in> set (clean_title t). (is_alnum c \<or> c = CHR ''_'' \<or> c = CHR ''-'') \<and> \<not> is_space c)"
proof (intro conjI ballI)
  show "create_chapter_filename t n = ''Chapter_'' @ format_02d n @ ''_'' @ clean_title t @ ''.pdf''"
    by (simp add: create_chapter_filename_def)
  have "keep_char = (\<lambda>c. is_alnum c \<or> c = CHR ''_'' \<or> is_space c \<or> c = CHR ''-'')"
    by (auto simp: keep_char_def is_word_def fun_eq_iff)
  then show "clean_title t =
     take 50 (re_sub_ws ''_'' (strip (filter
       (\<lambda>c. is_alnum c \<or> c = CHR ''_'' \<or> is_space c \<or> c = CHR ''-'') t)))"
    by (simp add: clean_title_def)
  show "length (clean_title t) \<le> 50"
    by (simp add: clean_title_def)
  fix c
  assume c: "c \<in> set (clean_title t)"
  then show "is_alnum c \<or> c = CHR ''_'' \<or> c = CHR ''-''"
    using clean_title_chars by blast
  from c show "\<not> is_space c"
    using clean_title_chars by blast
qed

lemma clean_title_example: "clean_title ''4. Fluid  Dynamics & (Gas) Pressure_2'' = ''4_Fluid_Dynamics_Gas_Pressure_2''"
  by code_simp

theorem slug_derivation_witness:
  "create_chapter_filename ''4. Fluid  Dynamics & (Gas) Pressure_2'' 4 =
     ''Chapter_'' @ format_02d 4 @ ''_'' @
       clean_title ''4. Fluid  Dynamics & (Gas) Pressure_2'' @ ''.pdf'' \<and>
   length (clean_title ''4. Fluid  Dynamics & (Gas) Pressure_2'') \<le> 50 \<and>
   CHR ''_'' \<in> set (clean_title ''4. Fluid  Dynamics & (Gas) Pressure_2'') \<and>
   \<not> is_space (CHR ''_'')"
proof -
  note w = slug_derivation [of "''4. Fluid  Dynamics & (Gas) Pressure_2''" 4]
  have m: "CHR ''_'' \<in> set (clean_title ''4. Fluid  Dynamics & (Gas) Pressure_2'')"
    by (simp add: clean_title_example)
  from w have "\<forall>c \<in> set (clean_title ''4. Fluid  Dynamics & (Gas) Pressure_2'').
      (is_alnum c \<or> c = CHR ''_'' \<or> c = CHR ''-'') \<and> \<not> is_space c"
    by (elim conjE)
  with m have "\<not> is_space (CHR ''_'')"
    by blast
  with w m show ?thesis
    by (elim conjE) (intro conjI)
qed

section \<open>The entry point: no chapters, no split\<close>

text \<open>
  C8. When the input exists and can be read, and \<open>detect_chapters\<close> returns the empty
  sequence, \<open>main\<close> ends with the report that no chapters were detected, never invokes
  \<open>split_pdf_by_chapters\<close> and leaves the file system as it was: no chapter file is
  created. (\<open>main\<close> never calls \<open>manual_chapter_input\<close>, so no override is supplied.)
\<close>

theorem main_no_chapters:
  assumes "input_exists" and "pdf = Some pages"
    and "detect_chapters set_order (extract_text_from_pdf extract_text pages) = []"
  shows "outcome (main extract_text set_order output_dir input_exists pdf fs) = NoChapters \<and>
         Split \<notin> set (trace (main extract_text set_order output_dir input_exists pdf fs)) \<and>
         final_fs (main extract_text set_order output_dir input_exists pdf fs) = fs"
  using assms by (simp add: main_def)

lemma plain_pdf_detect: "detect_chapters id (extract_text_from_pdf Some plain_pdf) = []"
  by code_simp

theorem main_no_chapters_witness:
  "detect_chapters id (extract_text_from_pdf Some plain_pdf) = [] \<and>
   outcome (main Some id ''out'' True (Some plain_pdf) \<lparr>dirs = {}, files = Map.empty, denied = {}\<rparr>) = NoChapters \<and>
   Split \<notin> set (trace (main Some id ''out'' True (Some plain_pdf) \<lparr>dirs = {}, files = Map.empty, denied = {}\<rparr>)) \<and>
   final_fs (main Some id ''out'' True (Some plain_pdf) \<lparr>dirs = {}, files = Map.empty, denied = {}\<rparr>) =
     \<lparr>dirs = {}, files = Map.empty, denied = {}\<rparr>"
  using main_no_chapters [OF TrueI refl plain_pdf_detect, of "''out''" "\<lparr>dirs = {}, files = Map.empty, denied = {}\<rparr>"]
    plain_pdf_detect
  by simp

lemma main_splits_otherwise:
  assumes "input_exists" and "pdf = Some pages"
    and "detect_chapters set_order (extract_text_from_pdf extract_text pages) \<noteq> []"
  shows "Split \<in> set (trace (main extract_text set_order output_dir input_exists pdf fs))"
  using assms by (simp add: main_def Let_def)

section \<open>File names: different ordinals, different names\<close>

lemma digits_then_underscore:
  assumes "\<forall>c \<in> set ds. is_digit c"
  shows "takeWhile is_digit (ds @ CHR ''_'' # r) = ds"
proof -
  have "\<not> is_digit (CHR ''_'')"
    by (simp add: is_digit_def code_def)
  then have "takeWhile is_digit (ds @ CHR ''_'' # r) = takeWhile is_digit ds"
    by (rule takeWhile_tail)
  also have "\<dots> = ds"
    using assms by (simp add: takeWhile_eq_all_conv)
  finally show ?thesis .
qed

lemma create_chapter_filename_ordinal:
  assumes "create_chapter_filename t1 n1 = create_chapter_filename t2 n2"
    and "0 \<le> n1" and "0 \<le> n2"
  shows "n1 = n2"
proof -
  let ?L1 = "format_02d n1 @ CHR ''_'' # (clean_title t1 @ ''.pdf'')"
  let ?L2 = "format_02d n2 @ CHR ''_'' # (clean_title t2 @ ''.pdf'')"
  from assms(1) have e: "?L1 = ?L2"
    by (simp add: create_chapter_filename_def)
  have "format_02d n1 = takeWhile is_digit ?L1"
    by (rule digits_then_underscore [symmetric]) (rule format_02d_digits [OF assms(2)])
  also have "\<dots> = takeWhile is_digit ?L2"
    by (rule arg_cong [OF e])
  also have "\<dots> = format_02d n2"
    by (rule digits_then_underscore) (rule format_02d_digits [OF assms(3)])
  finally have "undec (format_02d n1) = undec (format_02d n2)"
    by (rule arg_cong)
  then show ?thesis
    using assms(2,3) by (simp add: undec_format_02d)
qed

lemma path_join_filename:
  assumes "path_join d f1 = path_join d f2" and "hd f1 \<noteq> CHR ''/''" and "hd f2 \<noteq> CHR ''/''"
  shows "f1 = f2"
  using assms by (auto simp: path_join_def split: if_splits)

lemma create_chapter_filename_hd: "hd (create_chapter_filename t n) \<noteq> CHR ''/''"
  by (simp add: create_chapter_filename_def)

lemma chapter_path_inj:
  assumes "chapter_path output_dir chapters i = chapter_path output_dir chapters j"
  shows "i = j"
proof -
  from assms have "create_chapter_filename (snd (chapters ! i)) (int i + 1) =
      create_chapter_filename (snd (chapters ! j)) (int j + 1)"
    unfolding chapter_path_def
    by (rule path_join_filename) (rule create_chapter_filename_hd)+
  then have "int i + 1 = int j + 1"
    by (rule create_chapter_filename_ordinal) simp_all
  then show ?thesis by simp
qed

section \<open>Splitting: one file per mark\<close>

lemma chapter_path_longer:
  "length output_dir < length (chapter_path output_dir chapters i)"
  by (simp add: chapter_path_def path_join_def create_chapter_filename_def)

lemma chapter_path_not_dir: "chapter_path output_dir chapters i \<noteq> output_dir"
  using chapter_path_longer [of output_dir chapters i] by auto

lemma split_step_error:
  "snd st = Inl e \<Longrightarrow> split_step pages output_dir chapters st i = st"
  by (simp add: split_step_def)

lemma split_loop_error:
  "foldl (split_step pages output_dir chapters) (fs, Inl e) ks = (fs, Inl e)"
  by (induction ks) (simp_all add: split_step_error)

lemma split_step_written:
  assumes "snd st = Inr created_files" and "output_dir \<in> dirs (fst st)"
    and "chapter_path output_dir chapters i \<notin> dirs (fst st)"
    and "chapter_path output_dir chapters i \<notin> denied (fst st)"
  shows "split_step pages output_dir chapters st i =
     ((fst st)\<lparr>files := (files (fst st))
         (chapter_path output_dir chapters i \<mapsto> chapter_content pages chapters i)\<rparr>,
      Inr (created_files @ [chapter_path output_dir chapters i]))"
  using assms
  by (simp add: split_step_def write_file_def chapter_path_def chapter_content_def Let_def)

lemma split_loop:
  fixes fs0 :: "'p filesystem" and pages :: "'p list" and output_dir :: string
    and chapters :: "mark list"
  defines "st \<equiv> \<lambda>k. foldl (split_step pages output_dir chapters) (fs0, Inr []) [0..<k]"
  assumes "output_dir \<in> dirs fs0"
    and "\<forall>i<n. chapter_path output_dir chapters i \<notin> dirs fs0 \<union> denied fs0"
    and "k \<le> n"
  shows "snd (st k) = Inr (map (chapter_path output_dir chapters) [0..<k]) \<and>
         dirs (fst (st k)) = dirs fs0 \<and>
         denied (fst (st k)) = denied fs0 \<and>
         (\<forall>i<k. files (fst (st k)) (chapter_path output_dir chapters i) =
                  Some (chapter_content pages chapters i)) \<and>
         (\<forall>p. (\<forall>i<k. p \<noteq> chapter_path output_dir chapters i) \<longrightarrow>
                  files (fst (st k)) p = files fs0 p)"
  using assms(4)
proof (induction k)
  case 0
  show ?case by (simp add: st_def)
next
  case (Suc k)
  then have IH: "snd (st k) = Inr (map (chapter_path output_dir chapters) [0..<k])"
    "dirs (fst (st k)) = dirs fs0" "denied (fst (st k)) = denied fs0"
    "\<forall>i<k. files (fst (st k)) (chapter_path output_dir chapters i) =
            Some (chapter_content pages chapters i)"
    "\<forall>p. (\<forall>i<k. p \<noteq> chapter_path output_dir chapters i) \<longrightarrow>
            files (fst (st k)) p = files fs0 p"
    by simp_all
  have k: "chapter_path output_dir chapters k \<notin> dirs fs0"
    "chapter_path output_dir chapters k \<notin> denied fs0"
    using assms(3) Suc.prems by auto
  have "st (Suc k) = split_step pages output_dir chapters (st k) k"
    by (simp add: st_def)
  also have "\<dots> =
     ((fst (st k))\<lparr>files := (files (fst (st k)))
         (chapter_path output_dir chapters k \<mapsto> chapter_content pages chapters k)\<rparr>,
      Inr (map (chapter_path output_dir chapters) [0..<k] @ [chapter_path output_dir chapters k]))"
    using IH(1) assms(2) k by (intro split_step_written) (simp_all add: IH(2,3))
  finally have step: "st (Suc k) =
     ((fst (st k))\<lparr>files := (files (fst (st k)))
         (chapter_path output_dir chapters k \<mapsto> chapter_content pages chapters k)\<rparr>,
      Inr (map (chapter_path output_dir chapters) [0..<k] @ [chapter_path output_dir chapters k]))" .
  have ne: "chapter_path output_dir chapters i \<noteq> chapter_path output_dir chapters k" if "i < k" for i
    using that chapter_path_inj [of output_dir chapters i k] by auto
  show ?case
    unfolding step using IH ne
    by (auto simp: less_Suc_eq)
qed

text \<open>
  The first lines of \<open>split_pdf_by_chapters\<close>: when the output directory exists, or has a
  name that is free and that the operating system grants, the loop starts in a file system
  that has the directory.
\<close>

lemma split_prepare:
  assumes "output_dir \<noteq> []"
    and "output_dir \<in> dirs fs \<or> files fs output_dir = None \<and> output_dir \<notin> denied fs"
  shows "(if path_exists fs output_dir then Inr fs else makedirs fs output_dir) =
           Inr (fs\<lparr>dirs := insert output_dir (dirs fs)\<rparr>)"
proof (cases "output_dir \<in> dirs fs")
  case True
  then have "insert output_dir (dirs fs) = dirs fs"
    by auto
  with True assms(1) show ?thesis
    by (simp add: path_exists_def)
next
  case False
  with assms show ?thesis
    by (simp add: path_exists_def makedirs_def)
qed

lemma split_success:
  fixes fs :: "'p filesystem" and pages :: "'p list" and output_dir :: string
    and chapters :: "mark list"
  assumes "output_dir \<noteq> []"
    and "output_dir \<in> dirs fs \<or> files fs output_dir = None \<and> output_dir \<notin> denied fs"
    and "\<forall>i<length chapters. chapter_path output_dir chapters i \<notin> dirs fs \<union> denied fs"
  defines "R \<equiv> split_pdf_by_chapters fs (Some pages) output_dir chapters"
  shows "snd R = Inr (map (chapter_path output_dir chapters) [0..<length chapters])"
    and "dirs (fst R) = insert output_dir (dirs fs)"
    and "\<And>i. i < length chapters \<Longrightarrow>
           files (fst R) (chapter_path output_dir chapters i) =
             Some (chapter_content pages chapters i)"
    and "\<And>p. (\<forall>i<length chapters. p \<noteq> chapter_path output_dir chapters i) \<Longrightarrow>
           files (fst R) p = files fs p"
proof -
  let ?n = "length chapters"
  let ?fs1 = "fs\<lparr>dirs := insert output_dir (dirs fs)\<rparr>"
  have R: "R = foldl (split_step pages output_dir chapters) (?fs1, Inr []) [0..<?n]"
    by (simp add: R_def split_pdf_by_chapters_def split_prepare [OF assms(1,2)])
  have d: "output_dir \<in> dirs ?fs1"
    by simp
  have f: "\<forall>i<?n. chapter_path output_dir chapters i \<notin> dirs ?fs1 \<union> denied ?fs1"
    using assms(3) by (simp add: chapter_path_not_dir)
  note L = split_loop [OF d f order_refl, of pages, folded R]
  from L show "snd R = Inr (map (chapter_path output_dir chapters) [0..<?n])"
    by blast
  from L show "dirs (fst R) = insert output_dir (dirs fs)"
    by simp
  from L show "files (fst R) (chapter_path output_dir chapters i) =
      Some (chapter_content pages chapters i)" if "i < ?n" for i
    using that by blast
  from L show "files (fst R) p = files fs p"
    if "\<forall>i<?n. p \<noteq> chapter_path output_dir chapters i" for p
    using that by simp
qed

text \<open>The calls that raise: the empty output directory, and one that is a regular file.\<close>

lemma split_empty_output_dir:
  "split_pdf_by_chapters fs pdf [] chapters = (fs, Inl FileNotFoundError)"
  by (simp add: split_pdf_by_chapters_def path_exists_def makedirs_def)

lemma split_output_dir_is_file:
  assumes "output_dir \<noteq> []" and "output_dir \<notin> dirs fs" and "files fs output_dir \<noteq> None"
    and "chapters \<noteq> []"
  shows "split_pdf_by_chapters fs (Some pages) output_dir chapters = (fs, Inl NotADirectoryError)"
proof -
  have e: "path_exists fs output_dir"
    using assms(1,3) by (simp add: path_exists_def)
  have "[0..<length chapters] = 0 # [1..<length chapters]"
    using assms(4) by (simp add: upt_rec)
  moreover have "split_step pages output_dir chapters (fs, Inr []) 0 = (fs, Inl NotADirectoryError)"
    using assms(2,3) by (simp add: split_step_def write_file_def Let_def)
  ultimately show ?thesis
    using e by (simp add: split_pdf_by_chapters_def split_loop_error)
qed

lemma split_unreadable_pdf:
  assumes "path_exists fs output_dir"
  shows "split_pdf_by_chapters fs None output_dir chapters = (fs, Inl PdfReadError)"
  using assms by (simp add: split_pdf_by_chapters_def)

lemma chapter_pages_empty:
  assumes "length pages \<le> start_page \<or> end_pg < int start_page"
  shows "chapter_pages pages start_page end_pg = []"
proof -
  have "filter (\<lambda>page_num. page_num < int (length pages)) [int start_page..end_pg] = []"
    using assms by (auto simp: filter_empty_conv)
  then show ?thesis
    by (simp add: chapter_pages_def)
qed

text \<open>
  C10. Let the output directory have a non-empty name and be a directory, or have a name
  that is free and that the operating system grants, and let no path of a chapter file be
  a directory or be refused by the operating system. Then for every list of marks
  \<open>split_pdf_by_chapters\<close> raises nothing and returns one path per mark, all different,
  and under each path the file system then holds the pages of that mark's range. When the
  range is empty (the start page is at or past the page count, or the next mark starts on
  the same or an earlier page) the file is written all the same, with no pages.
\<close>

theorem split_one_file_per_mark:
  fixes fs :: "'p filesystem" and pages :: "'p list" and output_dir :: string
    and chapters :: "mark list"
  assumes "output_dir \<noteq> []"
    and "output_dir \<in> dirs fs \<or> files fs output_dir = None \<and> output_dir \<notin> denied fs"
    and "\<forall>i<length chapters. chapter_path output_dir chapters i \<notin> dirs fs \<union> denied fs"
  defines "R \<equiv> split_pdf_by_chapters fs (Some pages) output_dir chapters"
  shows "\<exists>created_files.
           snd R = Inr created_files \<and>
           length created_files = length chapters \<and> distinct created_files \<and>
           (\<forall>i<length chapters.
              created_files ! i =
                path_join output_dir (create_chapter_filename (snd (chapters ! i)) (int i + 1)) \<and>
              files (fst R) (created_files ! i) =
                Some (chapter_pages pages (fst (chapters ! i))
                        (end_page (length pages) chapters i))) \<and>
           (\<forall>i<length chapters.
              length pages \<le> fst (chapters ! i) \<or>
              end_page (length pages) chapters i < int (fst (chapters ! i)) \<longrightarrow>
              files (fst R) (created_files ! i) = Some [])"
proof -
  let ?n = "length chapters"
  let ?paths = "map (chapter_path output_dir chapters) [0..<?n]"
  have paths: "snd R = Inr ?paths"
    unfolding R_def using assms(1-3) by (rule split_success(1))
  have content: "files (fst R) (chapter_path output_dir chapters i) =
      Some (chapter_content pages chapters i)" if "i < ?n" for i
    unfolding R_def using assms(1-3) that by (rule split_success(3))
  have 1: "length ?paths = ?n"
    by simp
  have "inj_on (chapter_path output_dir chapters) (set [0..<?n])"
    by (rule inj_onI) (rule chapter_path_inj)
  then have 2: "distinct ?paths"
    by (simp add: distinct_map)
  have 3: "?paths ! i =
        path_join output_dir (create_chapter_filename (snd (chapters ! i)) (int i + 1)) \<and>
      files (fst R) (?paths ! i) =
        Some (chapter_pages pages (fst (chapters ! i)) (end_page (length pages) chapters i))"
    if "i < ?n" for i
    using content [OF that] that by (simp add: chapter_content_def chapter_path_def)
  have 4: "files (fst R) (?paths ! i) = Some []"
    if "i < ?n" and "length pages \<le> fst (chapters ! i) \<or>
            end_page (length pages) chapters i < int (fst (chapters ! i))" for i
  proof -
    from 3 [OF that(1)] have "files (fst R) (?paths ! i) =
        Some (chapter_pages pages (fst (chapters ! i)) (end_page (length pages) chapters i))"
      by (rule conjunct2)
    then show ?thesis
      by (simp only: chapter_pages_empty [OF that(2)])
  qed
  from paths 1 2 3 4 show ?thesis
    by blast
qed

lemma clash_split:
  "snd (split_pdf_by_chapters empty_fs (Some book_pdf) ''out'' clash_marks) =
     Inr [''out/Chapter_01_1_Fluid_Properties.pdf'', ''out/Chapter_02_2_Thermodynamics.pdf'',
          ''out/Chapter_03_3_Heat_Transfer.pdf'']"
  "files (fst (split_pdf_by_chapters empty_fs (Some book_pdf) ''out'' clash_marks))
     ''out/Chapter_02_2_Thermodynamics.pdf'' = Some book_pdf"
  by code_simp+

lemma clash_io:
  "''out'' \<noteq> []"
  "''out'' \<in> dirs empty_fs \<or> files empty_fs ''out'' = None \<and> ''out'' \<notin> denied empty_fs"
  "\<forall>i<length clash_marks. chapter_path ''out'' clash_marks i \<notin> dirs empty_fs \<union> denied empty_fs"
  by (simp_all add: empty_fs_def)

theorem split_one_file_per_mark_witness:
  "''out'' \<noteq> [] \<and>
   files empty_fs ''out'' = None \<and> ''out'' \<notin> denied empty_fs \<and>
   snd (split_pdf_by_chapters empty_fs (Some book_pdf) ''out'' clash_marks) =
     Inr [''out/Chapter_01_1_Fluid_Properties.pdf'', ''out/Chapter_02_2_Thermodynamics.pdf'',
          ''out/Chapter_03_3_Heat_Transfer.pdf''] \<and>
   files (fst (split_pdf_by_chapters empty_fs (Some book_pdf) ''out'' clash_marks))
     ''out/Chapter_01_1_Fluid_Properties.pdf'' = Some [] \<and>
   files (fst (split_pdf_by_chapters empty_fs (Some book_pdf) ''out'' clash_marks))
     ''out/Chapter_03_3_Heat_Transfer.pdf'' = Some []"
proof -
  let ?R = "split_pdf_by_chapters empty_fs (Some book_pdf) ''out'' clash_marks"
  from split_one_file_per_mark [OF clash_io, of book_pdf]
  obtain created_files where c: "snd ?R = Inr created_files"
    and e: "\<forall>i<length clash_marks.
              length book_pdf \<le> fst (clash_marks ! i) \<or>
              end_page (length book_pdf) clash_marks i < int (fst (clash_marks ! i)) \<longrightarrow>
              files (fst ?R) (created_files ! i) = Some []"
    by blast
  from c have cf: "created_files =
      [''out/Chapter_01_1_Fluid_Properties.pdf'', ''out/Chapter_02_2_Thermodynamics.pdf'',
       ''out/Chapter_03_3_Heat_Transfer.pdf'']"
    by (simp add: clash_split(1))
  have h0: "0 < length clash_marks"
    "end_page (length book_pdf) clash_marks 0 < int (fst (clash_marks ! 0))"
    by (simp_all add: clash_marks_def end_page_def)
  have h2: "2 < length clash_marks" "length book_pdf \<le> fst (clash_marks ! 2)"
    by (simp_all add: clash_marks_def book_pdf_def)
  from e h0 have "files (fst ?R) (created_files ! 0) = Some []"
    by blast
  moreover from e h2 have "files (fst ?R) (created_files ! 2) = Some []"
    by blast
  ultimately have "files (fst ?R) ''out/Chapter_01_1_Fluid_Properties.pdf'' = Some []"
    and "files (fst ?R) ''out/Chapter_03_3_Heat_Transfer.pdf'' = Some []"
    by (simp_all add: cf)
  moreover have "files empty_fs ''out'' = None" and "''out'' \<notin> denied empty_fs"
    by (simp_all add: empty_fs_def)
  ultimately show ?thesis
    using clash_split(1) by simp
qed

text \<open>
  With the empty output directory, and with one that is a regular file, nothing is
  written and the call raises.
\<close>

lemma split_raises_examples:
  "split_pdf_by_chapters empty_fs (Some book_pdf) [] book_marks = (empty_fs, Inl FileNotFoundError)"
  "split_pdf_by_chapters (empty_fs\<lparr>files := [''out'' \<mapsto> []]\<rparr>) (Some book_pdf) ''out'' book_marks =
     (empty_fs\<lparr>files := [''out'' \<mapsto> []]\<rparr>, Inl NotADirectoryError)"
proof -
  show "split_pdf_by_chapters empty_fs (Some book_pdf) [] book_marks =
      (empty_fs, Inl FileNotFoundError)"
    by (rule split_empty_output_dir)
  show "split_pdf_by_chapters (empty_fs\<lparr>files := [''out'' \<mapsto> []]\<rparr>) (Some book_pdf) ''out'' book_marks =
      (empty_fs\<lparr>files := [''out'' \<mapsto> []]\<rparr>, Inl NotADirectoryError)"
    by (rule split_output_dir_is_file) (simp_all add: empty_fs_def book_marks_def)
qed

section \<open>Splitting: the files cover the pages\<close>

lemma upto_map_int: "[int a..int a + int n - 1] = map int [a..<a + n]"
proof (induction n)
  case 0
  show ?case by simp
next
  case (Suc n)
  have "[int a..int a + int (Suc n) - 1] = [int a..int a + int n - 1] @ [int a + int n]"
    using upto_rec2 [of "int a" "int a + int n"] by simp
  with Suc show ?case by simp
qed

lemma upto_from_nat:
  assumes "int s \<le> e + 1"
  shows "[int s..e] = map int [s..<nat (e + 1)]"
proof -
  have "e = int s + int (nat (e + 1) - s) - 1"
    using assms by simp
  then have "[int s..e] = [int s..int s + int (nat (e + 1) - s) - 1]"
    by simp
  also have "\<dots> = map int [s..<s + (nat (e + 1) - s)]"
    by (rule upto_map_int)
  also have "s + (nat (e + 1) - s) = nat (e + 1)"
    using assms by simp
  finally show ?thesis .
qed

lemma chapter_pages_slice:
  assumes "int s \<le> e + 1" and "nat (e + 1) \<le> length pages"
  shows "chapter_pages pages s e = map (nth pages) [s..<nat (e + 1)]"
proof -
  have "filter (\<lambda>p. p < int (length pages)) (map int [s..<nat (e + 1)]) = map int [s..<nat (e + 1)]"
    using assms(2) by (auto simp: filter_id_conv)
  then show ?thesis
    by (simp add: chapter_pages_def upto_from_nat [OF assms(1)] comp_def)
qed

lemma upt_join: "i \<le> j \<Longrightarrow> j \<le> k \<Longrightarrow> [i..<j] @ [j..<k] = [i..<k]"
  using upt_add_eq_append [of i j "k - j"] by simp

lemma map_nth_drop: "map (nth xs) [i..<length xs] = drop i xs"
  by (simp add: list_eq_iff_nth_eq)

lemma end_page_bounds:
  assumes "sorted_wrt (<) (map fst chapters)" and "\<forall>c \<in> set chapters. fst c < length pages"
    and "i < length chapters"
  shows "int (fst (chapters ! i)) \<le> end_page (length pages) chapters i"
    and "end_page (length pages) chapters i < int (length pages)"
proof -
  have lt: "fst (chapters ! i) < fst (chapters ! Suc i)" if "Suc i < length chapters"
    using assms(1) that by (simp add: sorted_wrt_iff_nth_less)
  have b: "fst (chapters ! j) < length pages" if "j < length chapters" for j
    using assms(2) that by simp
  show "int (fst (chapters ! i)) \<le> end_page (length pages) chapters i"
    using lt b [OF assms(3)] by (auto simp: end_page_def)
  show "end_page (length pages) chapters i < int (length pages)"
    using b [of "Suc i"] by (auto simp: end_page_def)
qed

lemma chapter_content_slice:
  assumes "sorted_wrt (<) (map fst chapters)" and "\<forall>c \<in> set chapters. fst c < length pages"
    and "i < length chapters"
  shows "chapter_content pages chapters i =
     map (nth pages) [fst (chapters ! i)..<nat (end_page (length pages) chapters i + 1)]"
  unfolding chapter_content_def
  using end_page_bounds [OF assms] by (intro chapter_pages_slice) simp_all

lemma concat_chapter_contents:
  assumes "sorted_wrt (<) (map fst chapters)" and "\<forall>c \<in> set chapters. fst c < length pages"
  shows "k < length chapters \<Longrightarrow>
     concat (map (chapter_content pages chapters) [0..<Suc k]) =
       map (nth pages) [fst (chapters ! 0)..<nat (end_page (length pages) chapters k + 1)]"
proof (induction k)
  case 0
  then show ?case
    using chapter_content_slice [OF assms, of 0] by simp
next
  case (Suc k)
  then have k: "k < length chapters" by simp
  have e: "nat (end_page (length pages) chapters k + 1) = fst (chapters ! Suc k)"
    using Suc.prems by (simp add: end_page_def)
  have le0: "fst (chapters ! 0) \<le> fst (chapters ! Suc k)"
    using assms(1) Suc.prems by (simp add: sorted_wrt_iff_nth_less less_imp_le)
  have le1: "fst (chapters ! Suc k) \<le> nat (end_page (length pages) chapters (Suc k) + 1)"
    using end_page_bounds(1) [OF assms Suc.prems] by simp
  have "concat (map (chapter_content pages chapters) [0..<Suc (Suc k)]) =
      concat (map (chapter_content pages chapters) [0..<Suc k]) @
        chapter_content pages chapters (Suc k)"
    by simp
  also have "\<dots> = map (nth pages) [fst (chapters ! 0)..<fst (chapters ! Suc k)] @
      map (nth pages) [fst (chapters ! Suc k)..<nat (end_page (length pages) chapters (Suc k) + 1)]"
    by (simp only: Suc.IH [OF k] e chapter_content_slice [OF assms Suc.prems])
  also have "\<dots> = map (nth pages)
      [fst (chapters ! 0)..<nat (end_page (length pages) chapters (Suc k) + 1)]"
    by (simp only: map_append [symmetric] upt_join [OF le0 le1])
  finally show ?case .
qed

text \<open>
  C1. Let the marks be a non-empty list with strictly increasing start pages, all below
  the page count, and let the files be writable: the output directory has a non-empty name
  and is a directory, or has a name that is free and that the operating system grants, and
  no path of a chapter file is a directory or refused. Then \<open>split_pdf_by_chapters\<close>
  raises nothing, and the page counts of the files it returns sum to the page count minus
  the first start page; the files, one after the other, hold exactly the pages of the
  source from the first start page to the last page, each once and in order; file \<open>i\<close>
  holds the pages from its start page to its end page, which is not before the start page
  and is a page of the source; the end page of a mark is the page before the start page of
  the next, and the last end page is the last page.
\<close>

theorem split_covers_pages:
  fixes fs :: "'p filesystem" and pages :: "'p list" and output_dir :: string
    and chapters :: "mark list"
  assumes "chapters \<noteq> []" and "sorted_wrt (<) (map fst chapters)"
    and "\<forall>c \<in> set chapters. fst c < length pages"
    and "output_dir \<noteq> []"
    and "output_dir \<in> dirs fs \<or> files fs output_dir = None \<and> output_dir \<notin> denied fs"
    and "\<forall>i<length chapters. chapter_path output_dir chapters i \<notin> dirs fs \<union> denied fs"
  defines "R \<equiv> split_pdf_by_chapters fs (Some pages) output_dir chapters"
  shows "\<exists>created_files contents.
           snd R = Inr created_files \<and>
           map (files (fst R)) created_files = map Some contents \<and>
           sum_list (map length contents) = length pages - fst (hd chapters) \<and>
           concat contents = drop (fst (hd chapters)) pages \<and>
           (\<forall>i<length chapters.
              contents ! i =
                map (nth pages) [fst (chapters ! i)..<nat (end_page (length pages) chapters i + 1)] \<and>
              int (fst (chapters ! i)) \<le> end_page (length pages) chapters i \<and>
              end_page (length pages) chapters i < int (length pages)) \<and>
           (\<forall>i. i + 1 < length chapters \<longrightarrow>
              end_page (length pages) chapters i + 1 = int (fst (chapters ! (i + 1)))) \<and>
           end_page (length pages) chapters (length chapters - 1) = int (length pages) - 1"
proof -
  let ?n = "length chapters"
  let ?paths = "map (chapter_path output_dir chapters) [0..<?n]"
  let ?contents = "map (chapter_content pages chapters) [0..<?n]"
  have paths: "snd R = Inr ?paths"
    unfolding R_def using assms(4-6) by (rule split_success(1))
  have content: "files (fst R) (chapter_path output_dir chapters i) =
      Some (chapter_content pages chapters i)" if "i < ?n" for i
    unfolding R_def using assms(4-6) that by (rule split_success(3))
  have 0: "map (files (fst R)) ?paths = map Some ?contents"
    by (simp add: content)
  from assms(1) obtain k where n: "?n = Suc k"
    by (cases chapters) simp_all
  have last: "end_page (length pages) chapters k = int (length pages) - 1"
    using n by (simp add: end_page_def)
  have hd: "hd chapters = chapters ! 0"
    using assms(1) by (simp add: hd_conv_nth)
  have "concat ?contents =
      map (nth pages) [fst (chapters ! 0)..<nat (end_page (length pages) chapters k + 1)]"
    unfolding n using n by (intro concat_chapter_contents [OF assms(2,3)]) simp
  then have 2: "concat ?contents = drop (fst (hd chapters)) pages"
    by (simp add: last hd map_nth_drop)
  have "sum_list (map length ?contents) = length (concat ?contents)"
    by (simp only: length_concat)
  then have 1: "sum_list (map length ?contents) = length pages - fst (hd chapters)"
    by (simp only: 2 length_drop)
  have 3: "?contents ! i =
      map (nth pages) [fst (chapters ! i)..<nat (end_page (length pages) chapters i + 1)]"
    if "i < ?n" for i
    using that chapter_content_slice [OF assms(2,3) that] by simp
  have 4: "end_page (length pages) chapters i + 1 = int (fst (chapters ! (i + 1)))"
    if "i + 1 < ?n" for i
    using that by (simp add: end_page_def)
  have 5: "end_page (length pages) chapters (?n - 1) = int (length pages) - 1"
    using last n by simp
  from paths 0 1 2 3 4 5 end_page_bounds [OF assms(2,3)] show ?thesis
    by blast
qed

lemma book_hyps:
  "book_marks \<noteq> []" "sorted_wrt (<) (map fst book_marks)"
  "\<forall>c \<in> set book_marks. fst c < length book_pdf"
  "''out'' \<noteq> []"
  "''out'' \<in> dirs empty_fs \<or> files empty_fs ''out'' = None \<and> ''out'' \<notin> denied empty_fs"
  "\<forall>i<length book_marks. chapter_path ''out'' book_marks i \<notin> dirs empty_fs \<union> denied empty_fs"
  by (simp_all add: book_marks_def book_pdf_def empty_fs_def)

lemma book_split:
  "snd (split_pdf_by_chapters empty_fs (Some book_pdf) ''out'' book_marks) =
     Inr [''out/Chapter_01_Topic_I_Mass_and_Energy_Balances.pdf'',
          ''out/Chapter_02_2_Thermodynamics.pdf'']"
  "files (fst (split_pdf_by_chapters empty_fs (Some book_pdf) ''out'' book_marks))
     ''out/Chapter_01_Topic_I_Mass_and_Energy_Balances.pdf'' = Some [''page 1'', ''page 2'']"
  "files (fst (split_pdf_by_chapters empty_fs (Some book_pdf) ''out'' book_marks))
     ''out/Chapter_02_2_Thermodynamics.pdf'' = Some [''page 3'', ''page 4'']"
  by code_simp+

theorem split_covers_pages_witness:
  "book_marks \<noteq> [] \<and> sorted_wrt (<) (map fst book_marks) \<and>
   files empty_fs ''out'' = None \<and> ''out'' \<notin> denied empty_fs \<and>
   snd (split_pdf_by_chapters empty_fs (Some book_pdf) ''out'' book_marks) =
     Inr [''out/Chapter_01_Topic_I_Mass_and_Energy_Balances.pdf'',
          ''out/Chapter_02_2_Thermodynamics.pdf''] \<and>
   map (files (fst (split_pdf_by_chapters empty_fs (Some book_pdf) ''out'' book_marks)))
     [''out/Chapter_01_Topic_I_Mass_and_Energy_Balances.pdf'',
      ''out/Chapter_02_2_Thermodynamics.pdf''] =
     [Some [''page 1'', ''page 2''], Some [''page 3'', ''page 4'']] \<and>
   sum_list (map length [[''page 1'', ''page 2''], [''page 3'', ''page 4'']]) =
     length book_pdf - fst (hd book_marks) \<and>
   concat [[''page 1'', ''page 2''], [''page 3'', ''page 4'']] = drop (fst (hd book_marks)) book_pdf"
proof -
  let ?R = "split_pdf_by_chapters empty_fs (Some book_pdf) ''out'' book_marks"
  from split_covers_pages [OF book_hyps]
  obtain created_files contents where c: "snd ?R = Inr created_files"
    and m: "map (files (fst ?R)) created_files = map Some contents"
    and s: "sum_list (map length contents) = length book_pdf - fst (hd book_marks)"
    and d: "concat contents = drop (fst (hd book_marks)) book_pdf"
    by blast
  from c have cf: "created_files =
      [''out/Chapter_01_Topic_I_Mass_and_Energy_Balances.pdf'',
       ''out/Chapter_02_2_Thermodynamics.pdf'']"
    by (simp add: book_split(1))
  from m have "map Some contents = [Some [''page 1'', ''page 2''], Some [''page 3'', ''page 4'']]"
    by (simp add: cf book_split(2,3))
  then have ct: "contents = [[''page 1'', ''page 2''], [''page 3'', ''page 4'']]"
    by (auto simp: map_eq_Cons_conv)
  have "files empty_fs ''out'' = None" and "''out'' \<notin> denied empty_fs"
    by (simp_all add: empty_fs_def)
  with book_hyps(1,2) book_split s d show ?thesis
    unfolding ct by simp
qed

section \<open>The matcher: greedy repetitions and anchored patterns\<close>

lemma try_down_only_top:
  "(\<And>k. lo \<le> k \<Longrightarrow> k < lo + d \<Longrightarrow> f k = None) \<Longrightarrow> try_down f lo d = f (lo + d)"
proof (induction d)
  case 0
  show ?case by simp
next
  case (Suc d)
  have "try_down f lo d = f (lo + d)"
    by (rule Suc.IH) (simp add: Suc.prems)
  moreover have "f (lo + d) = None"
    by (rule Suc.prems) simp_all
  ultimately show ?case
    by (simp split: option.split)
qed

lemma try_down_Some:
  "try_down f lo d = Some r \<Longrightarrow> \<exists>k. lo \<le> k \<and> k \<le> lo + d \<and> f k = Some r"
proof (induction d)
  case 0
  then show ?case by auto
next
  case (Suc d)
  show ?case
  proof (cases "f (lo + Suc d)")
    case None
    with Suc.prems have "try_down f lo d = Some r" by simp
    from Suc.IH [OF this] show ?thesis
      by (auto intro: le_SucI)
  next
    case (Some a)
    with Suc.prems have "f (lo + Suc d) = Some r" by simp
    then show ?thesis by (intro exI [of _ "lo + Suc d"]) simp
  qed
qed

lemma try_down_found:
  "lo \<le> k \<Longrightarrow> k \<le> lo + d \<Longrightarrow> f k \<noteq> None \<Longrightarrow> try_down f lo d \<noteq> None"
proof (induction d)
  case 0
  then show ?case by simp
next
  case (Suc d)
  show ?case
  proof (cases "k = lo + Suc d")
    case True
    with Suc.prems show ?thesis by auto
  next
    case False
    with Suc.prems have "try_down f lo d \<noteq> None"
      by (intro Suc.IH) simp_all
    then show ?thesis by (simp split: option.split)
  qed
qed

lemma try_down_top: "f (lo + d) = Some r \<Longrightarrow> try_down f lo d = Some r"
  by (cases d) simp_all

lemma first_some_Some:
  "first_some xs = Some r \<Longrightarrow> Some r \<in> set xs"
  by (induction xs) (auto split: option.splits)

lemma first_some_found:
  "x \<in> set xs \<Longrightarrow> x \<noteq> None \<Longrightarrow> first_some xs \<noteq> None"
  by (induction xs) (auto split: option.splits)

lemma first_some_head: "(\<And>x. x \<in> set xs \<Longrightarrow> x = None) \<Longrightarrow> first_some (a # xs) = a"
  by (induction xs) (auto split: option.splits)

lemma run_le_length: "run c s \<le> length s"
  by (simp add: run_def length_takeWhile_le)

lemma run_pos: "0 < run c s \<Longrightarrow> s \<noteq> [] \<and> c (hd s)"
  by (cases s) (auto simp: run_def split: if_splits)

lemma drop_run: "drop (run c s) s = dropWhile c s"
  by (simp add: run_def dropWhile_eq_drop)

lemma in_run:
  assumes "k < run c s"
  shows "drop k s \<noteq> [] \<and> c (hd (drop k s))"
proof -
  have k: "k < length (takeWhile c s)"
    using assms by (simp add: run_def)
  then have l: "k < length s"
    using length_takeWhile_le [of c s] by simp
  have "takeWhile c s ! k \<in> set (takeWhile c s)"
    using k by (rule nth_mem)
  then have "c (takeWhile c s ! k)"
    by (rule set_takeWhileD [THEN conjunct2])
  then have "c (s ! k)"
    using k by (simp add: takeWhile_nth)
  with l show ?thesis
    by (simp add: hd_drop_conv_nth)
qed

lemma rmatch_first_class:
  "first_class r = Some c \<Longrightarrow> rmatch r i s g = Some m \<Longrightarrow> s \<noteq> [] \<and> c (hd s)"
proof (induction r arbitrary: g rule: first_class.induct)
  case (1 c' r)
  then show ?case by (auto split: list.splits if_splits)
next
  case (2 c' r)
  then have "0 < run c s"
    by (auto split: if_splits)
  then show ?case by (rule run_pos)
next
  case (3 r)
  then show ?case by auto
next
  case (4 r)
  then show ?case by auto
qed simp_all

lemma rmatch_wrong_class:
  assumes "first_class r = Some c" and "s = [] \<or> \<not> c (hd s)"
  shows "rmatch r i s g = None"
proof (cases "rmatch r i s g")
  case None
  then show ?thesis .
next
  case (Some m)
  with rmatch_first_class [OF assms(1) Some] assms(2) show ?thesis by blast
qed

lemma star_skip:
  assumes "first_class r = Some c" and "\<And>x. c x \<Longrightarrow> \<not> sp x"
  shows "rmatch (Star sp # r) i s g = rmatch r (i + run sp s) (dropWhile sp s) g"
proof -
  have "try_down (\<lambda>k. rmatch r (i + k) (drop k s) g) 0 (run sp s) =
      rmatch r (i + (0 + run sp s)) (drop (0 + run sp s) s) g"
  proof (rule try_down_only_top)
    fix k assume "k < 0 + run sp s"
    then have "drop k s \<noteq> [] \<and> sp (hd (drop k s))"
      by (intro in_run) simp
    then have "\<not> c (hd (drop k s))"
      using assms(2) by blast
    then show "rmatch r (i + k) (drop k s) g = None"
      by (intro rmatch_wrong_class [OF assms(1)]) simp
  qed
  then show ?thesis
    by (simp add: drop_run)
qed

lemma plus_skip:
  assumes "first_class r = Some c" and "\<And>x. c x \<Longrightarrow> \<not> sp x"
  shows "rmatch (Plus sp # r) i s g =
     (if run sp s = 0 then None else rmatch r (i + run sp s) (dropWhile sp s) g)"
proof (cases "run sp s = 0")
  case True
  then show ?thesis by simp
next
  case False
  have "try_down (\<lambda>k. rmatch r (i + k) (drop k s) g) 1 (run sp s - 1) =
      rmatch r (i + (1 + (run sp s - 1))) (drop (1 + (run sp s - 1)) s) g"
  proof (rule try_down_only_top)
    fix k assume "k < 1 + (run sp s - 1)"
    then have "drop k s \<noteq> [] \<and> sp (hd (drop k s))"
      using False by (intro in_run) simp
    then have "\<not> c (hd (drop k s))"
      using assms(2) by blast
    then show "rmatch r (i + k) (drop k s) g = None"
      by (intro rmatch_wrong_class [OF assms(1)]) simp
  qed
  with False show ?thesis
    by (simp add: drop_run)
qed

lemma plus_last:
  "rmatch [Plus c, GClose] i s g = (if run c s = 0 then None else Some (fst g, i + run c s))"
proof (cases "run c s = 0")
  case True
  then show ?thesis by simp
next
  case False
  have "try_down (\<lambda>k. rmatch [GClose] (i + k) (drop k s) g) 1 (run c s - 1) =
     Some (fst g, i + run c s)"
    by (rule try_down_top) (use False in simp)
  with False show ?thesis by simp
qed

lemma re_search_Bol: "re_search (Bol # r) s = rmatch r 0 s (0, 0)"
proof -
  have "[0..<Suc (length s)] = 0 # [1..<Suc (length s)]"
    by (simp add: upt_rec)
  then have "re_search (Bol # r) s =
      first_some (rmatch (Bol # r) 0 (drop 0 s) (0, 0) #
        map (\<lambda>i. rmatch (Bol # r) i (drop i s) (0, 0)) [1..<Suc (length s)])"
    by (simp add: re_search_def)
  also have "\<dots> = rmatch (Bol # r) 0 (drop 0 s) (0, 0)"
    by (rule first_some_head) auto
  finally show ?thesis by simp
qed

section \<open>The heading patterns exclude one another\<close>

lemma code_py_lower:
  "code (py_lower c) =
     (if (65 \<le> code c \<and> code c \<le> 90) \<or> (192 \<le> code c \<and> code c \<le> 222 \<and> code c \<noteq> 215)
      then code c + 32 else code c)"
  by (auto simp: py_lower_def code_def Let_def)

lemma ci_code:
  assumes "ci p x"
  shows "code (py_lower x) = code (py_lower p)"
  using assms by (simp add: ci_def)

lemma ci_T_code: "ci CHR ''T'' x \<Longrightarrow> code x = 84 \<or> code x = 116"
proof -
  assume "ci CHR ''T'' x"
  then have "code (py_lower x) = code (py_lower CHR ''T'')"
    by (rule ci_code)
  also have "code (py_lower CHR ''T'') = 116"
    by (simp add: code_py_lower) (simp add: code_def)
  finally show ?thesis
    by (auto simp: code_py_lower split: if_splits)
qed

lemma ci_c_code: "ci CHR ''c'' x \<Longrightarrow> code x = 67 \<or> code x = 99"
proof -
  assume "ci CHR ''c'' x"
  then have "code (py_lower x) = code (py_lower CHR ''c'')"
    by (rule ci_code)
  also have "code (py_lower CHR ''c'') = 99"
    by (simp add: code_py_lower) (simp add: code_def)
  finally show ?thesis
    by (auto simp: code_py_lower split: if_splits)
qed

lemma ci_T_not_space: "ci CHR ''T'' x \<Longrightarrow> \<not> is_space x"
  by (drule ci_T_code) (auto simp: is_space_def)

lemma ci_c_not_space: "ci CHR ''c'' x \<Longrightarrow> \<not> is_space x"
  by (drule ci_c_code) (auto simp: is_space_def)

lemma digit_not_space: "is_digit x \<Longrightarrow> \<not> is_space x"
  by (auto simp: is_digit_def is_space_def Let_def)

lemma word_not_space: "is_word x \<Longrightarrow> \<not> is_space x"
  by (auto simp: is_word_def is_alnum_def is_space_def code_def Let_def)

lemma first_chars_differ:
  "ci CHR ''T'' x \<Longrightarrow> \<not> is_digit x"
  "ci CHR ''T'' x \<Longrightarrow> \<not> ci CHR ''c'' x"
  "is_digit x \<Longrightarrow> \<not> ci CHR ''c'' x"
  by (auto simp: is_digit_def Let_def dest!: ci_T_code ci_c_code)

lemma anchored_first:
  assumes "p = Bol # Star is_space # r" and "first_class r = Some c"
    and "\<And>x. c x \<Longrightarrow> \<not> is_space x" and "re_search p l = Some g"
  shows "rmatch r (run is_space l) (dropWhile is_space l) (0, 0) = Some g"
    and "dropWhile is_space l \<noteq> [] \<and> c (hd (dropWhile is_space l))"
proof -
  have "re_search p l = rmatch (Star is_space # r) 0 l (0, 0)"
    unfolding assms(1) by (rule re_search_Bol)
  also have "\<dots> = rmatch r (0 + run is_space l) (dropWhile is_space l) (0, 0)"
    using assms(2,3) by (rule star_skip)
  finally show m: "rmatch r (run is_space l) (dropWhile is_space l) (0, 0) = Some g"
    using assms(4) by simp
  show "dropWhile is_space l \<noteq> [] \<and> c (hd (dropWhile is_space l))"
    using assms(2) m by (rule rmatch_first_class)
qed

lemma topic_first:
  assumes "re_search pat_topic l = Some g"
  shows "dropWhile is_space l \<noteq> [] \<and> ci CHR ''T'' (hd (dropWhile is_space l))"
proof (rule anchored_first(2) [OF _ _ _ assms])
  show "pat_topic = Bol # Star is_space # tl (tl pat_topic)"
    by (simp add: pat_topic_def)
  show "first_class (tl (tl pat_topic)) = Some (ci CHR ''T'')"
    by (simp add: pat_topic_def lit_ci_def)
qed (rule ci_T_not_space)

lemma numbered_first:
  assumes "re_search pat_numbered l = Some g"
  shows "dropWhile is_space l \<noteq> [] \<and> is_digit (hd (dropWhile is_space l))"
proof (rule anchored_first(2) [OF _ _ _ assms])
  show "pat_numbered = Bol # Star is_space # tl (tl pat_numbered)"
    by (simp add: pat_numbered_def)
  show "first_class (tl (tl pat_numbered)) = Some is_digit"
    by (simp add: pat_numbered_def)
qed (rule digit_not_space)

lemma chapter_digits_first:
  assumes "re_search pat_chapter_digits l = Some g"
  shows "dropWhile is_space l \<noteq> [] \<and> ci CHR ''c'' (hd (dropWhile is_space l))"
proof (rule anchored_first(2) [OF _ _ _ assms])
  show "pat_chapter_digits = Bol # Star is_space # tl (tl pat_chapter_digits)"
    by (simp add: pat_chapter_digits_def)
  show "first_class (tl (tl pat_chapter_digits)) = Some (ci CHR ''c'')"
    by (simp add: pat_chapter_digits_def lit_ci_def)
qed (rule ci_c_not_space)

lemma chapter_word_first:
  assumes "re_search pat_chapter_word l = Some g"
  shows "dropWhile is_space l \<noteq> [] \<and> ci CHR ''c'' (hd (dropWhile is_space l))"
proof (rule anchored_first(2) [OF _ _ _ assms])
  show "pat_chapter_word = Bol # Star is_space # tl (tl pat_chapter_word)"
    by (simp add: pat_chapter_word_def)
  show "first_class (tl (tl pat_chapter_word)) = Some (ci CHR ''c'')"
    by (simp add: pat_chapter_word_def lit_ci_def)
qed (rule ci_c_not_space)

lemma topic_excludes:
  assumes "re_search pat_topic l = Some g"
  shows "re_search pat_numbered l = None" and "re_search pat_chapter_digits l = None"
    and "re_search pat_chapter_word l = None"
  using topic_first [OF assms] numbered_first [of l] chapter_digits_first [of l]
    chapter_word_first [of l] first_chars_differ
  by (cases "re_search pat_numbered l"; cases "re_search pat_chapter_digits l";
      cases "re_search pat_chapter_word l"; blast)+

lemma numbered_excludes:
  assumes "re_search pat_numbered l = Some g"
  shows "re_search pat_chapter_digits l = None" and "re_search pat_chapter_word l = None"
  using numbered_first [OF assms] chapter_digits_first [of l]
    chapter_word_first [of l] first_chars_differ
  by (cases "re_search pat_chapter_digits l"; cases "re_search pat_chapter_word l"; blast)+

section \<open>The two Chapter patterns capture the same title\<close>

lemma starts_with_length: "starts_with w s \<Longrightarrow> length w \<le> length s"
  by (induction w s rule: starts_with.induct) simp_all

lemma run_not_nl: "NL \<notin> set s \<Longrightarrow> run not_nl s = length s"
proof -
  assume "NL \<notin> set s"
  then have "takeWhile not_nl s = s"
    by (auto simp: takeWhile_eq_all_conv not_nl_def)
  then show ?thesis by (simp only: run_def)
qed

lemma run_plus_rest: "run c s + length (dropWhile c s) = length s"
proof -
  have "length (takeWhile c s @ dropWhile c s) = length s"
    by (simp only: takeWhile_dropWhile_id)
  then show ?thesis
    by (simp only: run_def length_append)
qed

lemma tail_capture:
  assumes "\<forall>x \<in> set r0. plain x" and "NL \<notin> set s"
    and "rmatch (r0 @ [Plus not_nl, GClose]) i s g = Some m"
  shows "m = (fst g, i + length s)"
  using assms
proof (induction r0 arbitrary: i s)
  case Nil
  then have "rmatch [Plus not_nl, GClose] i s g = Some m"
    by simp
  then have "(if length s = 0 then None else Some (fst g, i + length s)) = Some m"
    by (simp only: plus_last run_not_nl [OF Nil.prems(2)])
  then show ?case
    by (simp split: if_splits)
next
  case (Cons x r0)
  let ?r = "r0 @ [Plus not_nl, GClose]"
  have IH: "m = (fst g, j + length t)" if "NL \<notin> set t" "rmatch ?r j t g = Some m" for j t
    using Cons.IH [OF _ that] Cons.prems(1) by simp
  have nl_drop: "NL \<notin> set (drop k s)" for k
    using Cons.prems(2) by (auto dest: in_set_dropD)
  from Cons.prems(3) have M: "rmatch (x # ?r) i s g = Some m" by simp
  show ?case
  proof (cases x)
    case Bol
    with M have "rmatch ?r i s g = Some m" by (simp split: if_splits)
    with IH Cons.prems(2) show ?thesis by blast
  next
    case Eol
    with M have "rmatch ?r i s g = Some m" by (simp split: if_splits)
    with IH Cons.prems(2) show ?thesis by blast
  next
    case (One c)
    with M obtain a s' where s: "s = a # s'" and "rmatch ?r (Suc i) s' g = Some m"
      by (auto split: list.splits if_splits)
    with IH [of s' "Suc i"] Cons.prems(2) show ?thesis by simp
  next
    case (Opt c)
    with M consider "rmatch ?r i s g = Some m"
      | a s' where "s = a # s'" "rmatch ?r (Suc i) s' g = Some m"
      by (auto split: list.splits if_splits option.splits)
    then show ?thesis
    proof cases
      case 1
      with IH Cons.prems(2) show ?thesis by blast
    next
      case 2
      with IH [of s' "Suc i"] Cons.prems(2) show ?thesis by simp
    qed
  next
    case (Star c)
    with M have "try_down (\<lambda>k. rmatch ?r (i + k) (drop k s) g) 0 (run c s) = Some m"
      by simp
    then obtain k where k: "k \<le> 0 + run c s" "rmatch ?r (i + k) (drop k s) g = Some m"
      by (blast dest: try_down_Some)
    from IH [OF nl_drop k(2)] k(1) run_le_length [of c s] show ?thesis by simp
  next
    case (Plus c)
    with M have "try_down (\<lambda>k. rmatch ?r (i + k) (drop k s) g) 1 (run c s - 1) = Some m"
      and r: "run c s \<noteq> 0"
      by (auto split: if_splits)
    then obtain k where k: "k \<le> 1 + (run c s - 1)" "rmatch ?r (i + k) (drop k s) g = Some m"
      by (blast dest: try_down_Some)
    from IH [OF nl_drop k(2)] k(1) r run_le_length [of c s] show ?thesis by simp
  next
    case (Alt ws)
    with M have "first_some (map (\<lambda>w. if starts_with w s
        then rmatch ?r (i + length w) (drop (length w) s) g else None) ws) = Some m"
      by simp
    then have "Some m \<in> set (map (\<lambda>w. if starts_with w s
        then rmatch ?r (i + length w) (drop (length w) s) g else None) ws)"
      by (rule first_some_Some)
    then obtain w where w: "starts_with w s" "rmatch ?r (i + length w) (drop (length w) s) g = Some m"
      by (auto split: if_splits)
    from IH [OF nl_drop w(2)] starts_with_length [OF w(1)] show ?thesis by simp
  next
    case GOpen
    with Cons.prems(1) show ?thesis by simp
  next
    case GClose
    with Cons.prems(1) show ?thesis by simp
  qed
qed

lemma lit_ci_step:
  "rmatch (lit_ci w @ r) i s g = Some m \<Longrightarrow>
     length w \<le> length s \<and> rmatch r (i + length w) (drop (length w) s) g = Some m"
proof (induction w arbitrary: i s)
  case Nil
  then show ?case by (simp add: lit_ci_def)
next
  case (Cons x w)
  from Cons.prems obtain a s' where s: "s = a # s'"
    and "rmatch (lit_ci w @ r) (Suc i) s' g = Some m"
    by (auto simp: lit_ci_def split: list.splits if_splits)
  from Cons.IH [OF this(2)] s show ?case by simp
qed

lemma rmatch_GOpen: "rmatch (GOpen # r) i s g = rmatch r i s (i, snd g)"
  by simp

lemma chapter_capture:
  assumes "\<And>x. c x \<Longrightarrow> \<not> is_space x" and "\<forall>x \<in> set mid. plain x" and "NL \<notin> set l"
    and "re_search ([Bol, Star is_space] @ lit_ci ''chapter'' @
           [Plus is_space, GOpen, Plus c] @ mid @ [Plus not_nl, GClose]) l = Some m"
  shows "m = (length l - length (dropWhile is_space (drop 7 (dropWhile is_space l))), length l)"
proof -
  let ?tail = "(Plus c # mid) @ [Plus not_nl, GClose]"
  let ?r = "lit_ci ''chapter'' @ Plus is_space # GOpen # ?tail"
  let ?s0 = "dropWhile is_space l"
  let ?s7 = "drop 7 ?s0"
  let ?s8 = "dropWhile is_space ?s7"
  let ?b = "run is_space l + 7 + run is_space ?s7"
  have seven: "length ''chapter'' = 7"
    by simp
  have l0: "run is_space l + length ?s0 = length l"
    by (rule run_plus_rest)
  have "rmatch ?r (run is_space l) ?s0 (0, 0) = Some m"
  proof (rule anchored_first(1) [OF _ _ ci_c_not_space assms(4)])
    show "[Bol, Star is_space] @ lit_ci ''chapter'' @
           [Plus is_space, GOpen, Plus c] @ mid @ [Plus not_nl, GClose] = Bol # Star is_space # ?r"
      by simp
    show "first_class ?r = Some (ci CHR ''c'')"
      by (simp add: lit_ci_def)
  qed
  then have "length ''chapter'' \<le> length ?s0 \<and>
      rmatch (Plus is_space # GOpen # ?tail) (run is_space l + length ''chapter'')
        (drop (length ''chapter'') ?s0) (0, 0) = Some m"
    by (rule lit_ci_step)
  then have l7: "7 \<le> length ?s0"
    and A: "rmatch (Plus is_space # GOpen # ?tail) (run is_space l + 7) ?s7 (0, 0) = Some m"
    by (simp_all only: seven)
  have fc: "first_class (GOpen # ?tail) = Some c"
    by simp
  have B: "rmatch (Plus is_space # GOpen # ?tail) (run is_space l + 7) ?s7 (0, 0) =
      (if run is_space ?s7 = 0 then None else rmatch (GOpen # ?tail) ?b ?s8 (0, 0))"
    using fc assms(1) by (rule plus_skip)
  have "rmatch (GOpen # ?tail) ?b ?s8 (0, 0) = Some m"
  proof (cases "run is_space ?s7 = 0")
    case True
    from A [unfolded B] True show ?thesis by simp
  next
    case False
    from A [unfolded B] show ?thesis by (simp only: False if_False)
  qed
  then have C: "rmatch ?tail ?b ?s8 (?b, 0) = Some m"
    by (simp only: rmatch_GOpen snd_conv)
  have p: "\<forall>x \<in> set (Plus c # mid). plain x"
    using assms(2) by simp
  have n: "NL \<notin> set ?s8"
    using assms(3) by (auto dest!: set_dropWhileD in_set_dropD)
  from p n C have "m = (fst (?b, 0::nat), ?b + length ?s8)"
    by (rule tail_capture)
  then have m: "m = (?b, ?b + length ?s8)"
    by (simp only: fst_conv)
  have l8: "run is_space ?s7 + length ?s8 = length ?s7"
    by (rule run_plus_rest)
  have "length ?s7 + 7 = length ?s0"
    using l7 by simp
  with l0 l8 have e: "?b + length ?s8 = length l"
    by simp
  then have "?b = length l - length ?s8"
    by simp
  with m e show ?thesis by (simp only:)
qed

lemma chapter_patterns_agree:
  assumes "NL \<notin> set l" and "re_search pat_chapter_digits l = Some g"
    and "re_search pat_chapter_word l = Some g'"
  shows "g' = g"
proof -
  have "g = (length l - length (dropWhile is_space (drop 7 (dropWhile is_space l))), length l)"
    by (rule chapter_capture [of is_digit "[Opt is_dot, Star is_space, One is_ascii_letter]"])
       (use assms in \<open>simp_all add: digit_not_space pat_chapter_digits_def\<close>)
  moreover
  have "g' = (length l - length (dropWhile is_space (drop 7 (dropWhile is_space l))), length l)"
    by (rule chapter_capture [of is_word "[Opt is_dot, Star is_space, One is_ascii_letter]"])
       (use assms in \<open>simp_all add: word_not_space pat_chapter_word_def\<close>)
  ultimately show ?thesis by simp
qed

section \<open>The first matching pattern decides the line\<close>

lemma split_nl_no_NL: "l \<in> set (split_nl s) \<Longrightarrow> NL \<notin> set l"
proof (induction s arbitrary: l)
  case Nil
  then show ?case by simp
next
  case (Cons c cs)
  show ?case
  proof (cases "c = NL")
    case True
    with Cons show ?thesis by auto
  next
    case False
    obtain h t where ht: "split_nl cs = h # t"
      by (cases "split_nl cs") (cases cs, simp_all split: if_splits list.splits)
    with Cons.prems False have "l = c # h \<or> l \<in> set t"
      by simp
    moreover have "NL \<notin> set h" and "\<And>x. x \<in> set t \<Longrightarrow> NL \<notin> set x"
      using Cons.IH ht by simp_all
    ultimately show ?thesis
      using False by auto
  qed
qed

lemma inspected_no_NL:
  assumes "l \<in> set (inspected_lines text)"
  shows "NL \<notin> set l"
proof -
  from assms obtain l0 where "l0 \<in> set (take 5 (split_nl text))" and l: "l = strip l0"
    by (auto simp: inspected_lines_def)
  then have "l0 \<in> set (split_nl text)"
    by (auto dest: in_set_takeD)
  then have "NL \<notin> set l0"
    by (rule split_nl_no_NL)
  with set_strip [of l0] l show ?thesis
    by blast
qed

text \<open>
  C5. For every line that \<open>detect_chapters\<close> inspects, the loop over the patterns
  gives what the first pattern of the list that matches the line gives: the title of that
  match when the filter accepts it, and no mark otherwise. A later pattern never
  contributes the mark, although the loop goes on after a rejected match: the Topic form,
  the numbered form and the two Chapter forms exclude one another on the first character
  of the stripped line, and the two Chapter forms capture the same title.
\<close>

theorem first_match_wins:
  assumes "line \<in> set (inspected_lines text)"
  shows "try_patterns chapter_patterns line =
     (case first_match chapter_patterns line of
        None \<Rightarrow> None
      | Some t \<Rightarrow> if accept_title t then Some t else None)"
proof -
  have nl: "NL \<notin> set line"
    using assms by (rule inspected_no_NL)
  show ?thesis
  proof (cases "re_search pat_topic line")
    case (Some g)
    with topic_excludes [OF Some] show ?thesis
      by (simp add: chapter_patterns_def)
  next
    case topic: None
    show ?thesis
    proof (cases "re_search pat_numbered line")
      case (Some g)
      with numbered_excludes [OF Some] topic show ?thesis
        by (simp add: chapter_patterns_def)
    next
      case numbered: None
      show ?thesis
      proof (cases "re_search pat_chapter_digits line")
        case None
        with topic numbered show ?thesis
          by (simp add: chapter_patterns_def split: option.split)
      next
        case (Some g)
        show ?thesis
        proof (cases "re_search pat_chapter_word line")
          case None
          with topic numbered Some show ?thesis
            by (simp add: chapter_patterns_def)
        next
          case word: (Some g')
          have "g' = g"
            using nl Some word by (rule chapter_patterns_agree)
          with topic numbered Some word show ?thesis
            by (simp add: chapter_patterns_def)
        qed
      qed
    qed
  qed
qed

lemma gauge_line_facts:
  "gauge_line \<in> set (inspected_lines gauge_line)"
  "re_search pat_chapter_digits gauge_line \<noteq> None"
  "re_search pat_chapter_word gauge_line \<noteq> None"
  "first_match chapter_patterns gauge_line = Some ''12 psi gauge pressure''"
  "try_patterns chapter_patterns gauge_line = None"
  by code_simp+

theorem first_match_wins_witness:
  "gauge_line \<in> set (inspected_lines gauge_line) \<and>
   try_patterns chapter_patterns gauge_line =
     (case first_match chapter_patterns gauge_line of
        None \<Rightarrow> None
      | Some t \<Rightarrow> if accept_title t then Some t else None) \<and>
   first_match chapter_patterns gauge_line = Some ''12 psi gauge pressure''"
  using first_match_wins [OF gauge_line_facts(1)] gauge_line_facts(1,4)
  by (intro conjI)

section \<open>The false-positive filter\<close>

lemma run_prefix: "list_all c ds \<Longrightarrow> length ds \<le> run c (ds @ s)"
  by (induction ds) (simp_all add: run_def)

lemma starts_with_append: "starts_with u (u @ s)"
  by (induction u) simp_all

lemma plus_app:
  assumes "ds \<noteq> []" and "list_all c ds" and "rmatch r (i + length ds) s g \<noteq> None"
  shows "rmatch (Plus c # r) i (ds @ s) g \<noteq> None"
proof -
  let ?f = "\<lambda>k. rmatch r (i + k) (drop k (ds @ s)) g"
  have k: "length ds \<le> run c (ds @ s)"
    using assms(2) by (rule run_prefix)
  have pos: "1 \<le> length ds"
    using assms(1) by (cases ds) simp_all
  have fk: "?f (length ds) \<noteq> None"
    using assms(3) by simp
  have le: "length ds \<le> 1 + (run c (ds @ s) - 1)"
    using k by simp
  from pos le fk have "try_down ?f 1 (run c (ds @ s) - 1) \<noteq> None"
    by (rule try_down_found)
  moreover have "run c (ds @ s) \<noteq> 0"
    using k pos by simp
  ultimately show ?thesis
    by simp
qed

lemma star_app:
  assumes "list_all c ds" and "rmatch r (i + length ds) s g \<noteq> None"
  shows "rmatch (Star c # r) i (ds @ s) g \<noteq> None"
proof -
  let ?f = "\<lambda>k. rmatch r (i + k) (drop k (ds @ s)) g"
  have k: "length ds \<le> 0 + run c (ds @ s)"
    using assms(1) by (simp add: run_prefix)
  have fk: "?f (length ds) \<noteq> None"
    using assms(2) by simp
  from le0 k fk have "try_down ?f 0 (run c (ds @ s)) \<noteq> None"
    by (rule try_down_found)
  then show ?thesis
    by simp
qed

lemma opt_app:
  assumes "dot = [] \<or> dot = [a] \<and> c a" and "rmatch r (i + length dot) s g \<noteq> None"
  shows "rmatch (Opt c # r) i (dot @ s) g \<noteq> None"
  using assms by (cases s) (auto split: option.splits)

lemma alt_app:
  assumes "u \<in> set ws" and "rmatch r (i + length u) s g \<noteq> None"
  shows "rmatch (Alt ws # r) i (u @ s) g \<noteq> None"
proof -
  let ?F = "\<lambda>w. if starts_with w (u @ s)
                 then rmatch r (i + length w) (drop (length w) (u @ s)) g else None"
  have "?F u \<in> set (map ?F ws)"
    using assms(1) by (rule imageI [of u "set ws" ?F, folded set_map])
  moreover have "?F u \<noteq> None"
    using assms(2) by (simp add: starts_with_append)
  ultimately have "first_some (map ?F ws) \<noteq> None"
    by (rule first_some_found)
  then show ?thesis
    by simp
qed

lemma number_head:
  assumes "ds \<noteq> []" and "list_all is_digit ds" and "dot = [] \<or> dot = ''.''"
    and "list_all is_digit fr"
    and "rmatch r (length ds + length dot + length fr) s (0, 0) \<noteq> None"
  shows "re_search ([Bol, Plus is_digit, Opt is_dot, Star is_digit] @ r)
           (ds @ dot @ fr @ s) \<noteq> None"
proof -
  have "rmatch (Star is_digit # r) (length ds + length dot) (fr @ s) (0, 0) \<noteq> None"
    using assms(4,5) by (rule star_app)
  moreover have "dot = [] \<or> dot = [CHR ''.''] \<and> is_dot CHR ''.''"
    using assms(3) by (simp add: is_dot_def)
  ultimately have "rmatch (Opt is_dot # Star is_digit # r) (length ds) (dot @ fr @ s) (0, 0) \<noteq> None"
    by (rule opt_app [rotated])
  then have "rmatch (Opt is_dot # Star is_digit # r) (0 + length ds) (dot @ fr @ s) (0, 0) \<noteq> None"
    by simp
  with assms(1,2)
  have "rmatch (Plus is_digit # Opt is_dot # Star is_digit # r) 0 (ds @ dot @ fr @ s) (0, 0) \<noteq> None"
    by (rule plus_app)
  then show ?thesis
    by (simp only: append.simps re_search_Bol not_False_eq_True)
qed

lemma unit_tail:
  assumes "u \<in> set us"
  shows "rmatch [GOpen, Alt us, GClose] i (u @ rest) g \<noteq> None"
proof -
  have "rmatch [GClose] (i + length u) rest (i, snd g) \<noteq> None"
    by simp
  with assms have "rmatch [Alt us, GClose] i (u @ rest) (i, snd g) \<noteq> None"
    by (rule alt_app)
  then show ?thesis
    by simp
qed

lemma pat_measure_matches:
  assumes "ds \<noteq> []" and "list_all is_digit ds" and "dot = [] \<or> dot = ''.''"
    and "list_all is_digit fr" and "list_all is_space ws" and "u \<in> set units_a"
  shows "re_search pat_measure (ds @ dot @ fr @ ws @ u @ rest) \<noteq> None"
proof -
  let ?i = "length ds + length dot + length fr"
  have "rmatch [GOpen, Alt units_a, GClose] (?i + length ws) (u @ rest) (0, 0) \<noteq> None"
    using assms(6) by (rule unit_tail)
  with assms(5)
  have "rmatch [Star is_space, GOpen, Alt units_a, GClose] ?i (ws @ u @ rest) (0, 0) \<noteq> None"
    by (rule star_app)
  with assms(1-4)
  have "re_search ([Bol, Plus is_digit, Opt is_dot, Star is_digit] @
          [Star is_space, GOpen, Alt units_a, GClose]) (ds @ dot @ fr @ ws @ u @ rest) \<noteq> None"
    by (rule number_head)
  then show ?thesis
    by (simp only: pat_measure_def append.simps not_False_eq_True)
qed

lemma pat_units_matches:
  assumes "ds \<noteq> []" and "list_all is_digit ds" and "dot = [] \<or> dot = ''.''"
    and "list_all is_digit fr" and "ws \<noteq> []" and "list_all is_space ws" and "u \<in> set units_b"
  shows "re_search pat_units (ds @ dot @ fr @ ws @ u @ rest) \<noteq> None"
proof -
  let ?i = "length ds + length dot + length fr"
  have "rmatch [GOpen, Alt units_b, GClose] (?i + length ws) (u @ rest) (0, 0) \<noteq> None"
    using assms(7) by (rule unit_tail)
  with assms(5,6)
  have "rmatch [Plus is_space, GOpen, Alt units_b, GClose] ?i (ws @ u @ rest) (0, 0) \<noteq> None"
    by (rule plus_app)
  with assms(1-4)
  have "re_search ([Bol, Plus is_digit, Opt is_dot, Star is_digit] @
          [Plus is_space, GOpen, Alt units_b, GClose]) (ds @ dot @ fr @ ws @ u @ rest) \<noteq> None"
    by (rule number_head)
  then show ?thesis
    by (simp only: pat_units_def append.simps not_False_eq_True)
qed

lemma contains_append: "contains p (pre @ p @ post)"
proof (induction pre)
  case Nil
  have sw: "starts_with p (p @ post)"
    by (rule starts_with_append)
  show ?case
  proof (cases "p @ post")
    case Nil
    then show ?thesis by simp
  next
    case (Cons a list)
    with sw have "starts_with p (a # list)"
      by simp
    with Cons show ?thesis
      by simp
  qed
next
  case (Cons a pre)
  then show ?case by simp
qed

lemma accept_title_sound:
  assumes "accept_title t"
  shows "11 \<le> length t \<and> \<not> measurement t \<and> \<not> mentions_equation t \<and>
         count_list t CHR ''.'' \<le> 2"
proof -
  have "\<not> measurement t"
  proof
    assume "measurement t"
    then obtain ds dot fr ws u rest where
      t: "t = ds @ dot @ fr @ ws @ u @ rest" and ds: "ds \<noteq> []" "list_all is_digit ds"
      and dot: "dot = [] \<or> dot = ''.''" and fr: "list_all is_digit fr"
      and ws: "list_all is_space ws"
      and u: "u \<in> set units_a \<or> ws \<noteq> [] \<and> u \<in> set units_b"
      unfolding measurement_def by blast
    from u show False
    proof
      assume "u \<in> set units_a"
      with ds dot fr ws have "re_search pat_measure (ds @ dot @ fr @ ws @ u @ rest) \<noteq> None"
        by (rule pat_measure_matches)
      with assms t show False
        by (simp add: accept_title_def)
    next
      assume b: "ws \<noteq> [] \<and> u \<in> set units_b"
      then have "ws \<noteq> []" and "u \<in> set units_b"
        by simp_all
      with ds dot fr ws have "re_search pat_units (ds @ dot @ fr @ ws @ u @ rest) \<noteq> None"
        by (intro pat_units_matches)
      with assms t show False
        by (simp add: accept_title_def)
    qed
  qed
  moreover have "\<not> mentions_equation t"
  proof
    assume "mentions_equation t"
    then obtain pre post where "map py_lower t = pre @ ''equation'' @ post"
      unfolding mentions_equation_def by blast
    then have "contains ''equation'' (map py_lower t)"
      by (simp only: contains_append)
    with assms show False
      by (simp add: accept_title_def)
  qed
  moreover have "11 \<le> length t" and "count_list t CHR ''.'' \<le> 2"
    using assms by (simp_all add: accept_title_def)
  ultimately show ?thesis
    by simp
qed

lemma try_patterns_accept: "try_patterns ps l = Some t \<Longrightarrow> accept_title t"
  by (induction ps) (auto simp: Let_def split: option.splits if_splits)

lemma collect_marks_accept:
  assumes "(p, t) \<in> set (collect_marks page_texts)"
  shows "accept_title t"
proof -
  from assms obtain pt where "(p, t) \<in> set (page_marks pt)"
    by (auto simp: collect_marks_def)
  then obtain l where "try_patterns chapter_patterns l = Some t"
    by (auto simp: page_marks_def split: if_splits option.splits)
  then show ?thesis
    by (rule try_patterns_accept)
qed

lemma filter_examples:
  "try_patterns chapter_patterns ''1.2.3 some reference'' = None"
  "try_patterns chapter_patterns ''14 psi absolute pressure'' = None"
  "try_patterns chapter_patterns ''Chapter 4. Fluid Dynamics and Pressure'' =
     Some ''4. Fluid Dynamics and Pressure''"
  by code_simp+

lemma flow_page_collect:
  "collect_marks flow_page = [(0, ''12L/s flow rates in pipes'')]"
  by code_simp

lemma flow_title_unit: "number_then_unit ''12L/s flow rates in pipes''"
  by code_simp

text \<open>
  C4, as stated, fails for the unit \<open>L/s\<close>: the second filter pattern asks for white
  space between the number and the unit, and the first one does not list \<open>L/s\<close>. The
  heading \<open>Chapter 12L/s flow rates in pipes\<close> gives a mark whose title begins with the
  number 12 immediately followed by \<open>L/s\<close>.
\<close>

theorem detect_chapters_keeps_flow_rate:
  "rearranges id \<and>
   number_then_unit ''12L/s flow rates in pipes'' \<and>
   detect_chapters id flow_page = [(0, ''12L/s flow rates in pipes'')]"
proof (intro conjI)
  show "rearranges id"
    by (rule rearranges_id)
  show "number_then_unit ''12L/s flow rates in pipes''"
    by (rule flow_title_unit)
  show "detect_chapters id flow_page = [(0, ''12L/s flow rates in pipes'')]"
    by (simp add: detect_chapters_def list_of_set_def flow_page_collect)
qed

text \<open>
  C4. Whatever the iteration order of the intermediate set, every title that
  \<open>detect_chapters\<close> returns has at least 11 characters, does not begin with a
  measurement (a number, then a unit of the first list after any white space, or a unit of
  the second list after at least one white space character), does not hold the word
  ``equation'' in any case, and has at most two periods. The line
  \<open>1.2.3 some reference\<close> gives no mark (no pattern matches it), the line
  \<open>14 psi absolute pressure\<close> gives no mark, and the line
  \<open>Chapter 4. Fluid Dynamics and Pressure\<close> gives the title
  \<open>4. Fluid Dynamics and Pressure\<close>.
\<close>

theorem detect_chapters_filter:
  assumes "rearranges set_order"
    and "(p, t) \<in> set (detect_chapters set_order page_texts)"
  shows "11 \<le> length t \<and> \<not> measurement t \<and> \<not> mentions_equation t \<and>
         count_list t CHR ''.'' \<le> 2 \<and>
         try_patterns chapter_patterns ''1.2.3 some reference'' = None \<and>
         try_patterns chapter_patterns ''14 psi absolute pressure'' = None \<and>
         try_patterns chapter_patterns ''Chapter 4. Fluid Dynamics and Pressure'' =
           Some ''4. Fluid Dynamics and Pressure''"
proof -
  have "set (detect_chapters set_order page_texts) = set (collect_marks page_texts)"
    using assms(1) by (simp add: detect_chapters_def list_of_set_set)
  with assms(2) have "(p, t) \<in> set (collect_marks page_texts)"
    by simp
  then have "accept_title t"
    by (rule collect_marks_accept)
  then have "11 \<le> length t \<and> \<not> measurement t \<and> \<not> mentions_equation t \<and>
         count_list t CHR ''.'' \<le> 2"
    by (rule accept_title_sound)
  with filter_examples show ?thesis
    by (intro conjI) (erule conjE | assumption)+
qed

lemma book_pages_member:
  "(2, ''2. Thermodynamics'') \<in> set (detect_chapters rev book_pages)"
proof -
  have "set (detect_chapters rev book_pages) = set (collect_marks book_pages)"
    using rearranges_rev by (simp add: detect_chapters_def list_of_set_set)
  then show ?thesis
    by (simp add: book_pages_collect)
qed

theorem detect_chapters_filter_witness:
  "rearranges rev \<and>
   (2, ''2. Thermodynamics'') \<in> set (detect_chapters rev book_pages) \<and>
   11 \<le> length ''2. Thermodynamics'' \<and>
   \<not> measurement ''2. Thermodynamics'' \<and>
   \<not> mentions_equation ''2. Thermodynamics'' \<and>
   count_list ''2. Thermodynamics'' CHR ''.'' \<le> 2 \<and>
   try_patterns chapter_patterns ''14 psi absolute pressure'' = None"
  using detect_chapters_filter [OF rearranges_rev book_pages_member]
    rearranges_rev book_pages_member
  by blast

end
